theory Spec2Isabelle
  imports Complex_Main "HOL-Library.Word" "HOL-Library.Sublist"
begin

section \<open>Strings and regular-expression helpers\<close>

text \<open>
  A JavaScript string is a sequence of UTF-16 code units; \<open>text.length\<close> counts code
  units. \<open>js\<close> writes an ASCII literal as such a string.
\<close>

type_synonym code_unit = "16 word"
type_synonym js_string = "code_unit list"

definition js :: "string \<Rightarrow> js_string" where
  "js s = map (\<lambda>c. of_nat (of_char c)) s"

text \<open>
  The character class \<open>\s\<close> of a JavaScript regular expression, which is also the set
  that \<open>String.prototype.trim\<close> strips: TAB, LF, VT, FF, CR, SP, NBSP, the Unicode
  space separators, LS, PS and the byte order mark.
\<close>

definition isWhiteSpace :: "code_unit \<Rightarrow> bool" where
  "isWhiteSpace c \<longleftrightarrow>
     c \<in> set [0x09, 0x0A, 0x0B, 0x0C, 0x0D, 0x20, 0xA0, 0x1680, 0x2028, 0x2029,
               0x202F, 0x205F, 0x3000, 0xFEFF]
     \<or> (0x2000 \<le> c \<and> c \<le> 0x200A)"

text \<open>The class \<open>\n\<close>: the line feed only.\<close>

definition isNewline :: "code_unit \<Rightarrow> bool" where
  "isNewline c \<longleftrightarrow> c = 0x0A"

text \<open>The class \<open>[.!?]\<close> of \<open>splitIntoSentences\<close>.\<close>

definition isTerminator :: "code_unit \<Rightarrow> bool" where
  "isTerminator c \<longleftrightarrow> c = 0x2E \<or> c = 0x21 \<or> c = 0x3F"

text \<open>
  \<open>s.replace(/C+/g, r)\<close> for a character class \<open>C\<close>: scanning from the left, every
  maximal run of characters of the class is replaced by \<open>r\<close>.
\<close>

function replaceRuns :: "(code_unit \<Rightarrow> bool) \<Rightarrow> js_string \<Rightarrow> js_string \<Rightarrow> js_string" where
  "replaceRuns p r [] = []"
| "replaceRuns p r (c # cs) =
     (if p c then r @ replaceRuns p r (dropWhile p cs) else c # replaceRuns p r cs)"
  by pat_completeness auto
termination
  by (relation "measure (\<lambda>(p, r, cs). length cs)")
     (auto simp: length_dropWhile_le less_Suc_eq_le)

text \<open>\<open>s.trim()\<close>: leading and trailing white space removed.\<close>

definition trimStart :: "js_string \<Rightarrow> js_string" where
  "trimStart s = dropWhile isWhiteSpace s"

definition trimEnd :: "js_string \<Rightarrow> js_string" where
  "trimEnd s = rev (dropWhile isWhiteSpace (rev s))"

definition trim :: "js_string \<Rightarrow> js_string" where
  "trim s = trimEnd (trimStart s)"

text \<open>
  \<open>s.split(/C+/)\<close> for a character class \<open>C\<close>: the pieces between the maximal runs
  of the class. A run at the start or at the end of the string leaves an empty piece
  there, and the empty string splits into one empty piece.
\<close>

function splitRuns :: "(code_unit \<Rightarrow> bool) \<Rightarrow> js_string \<Rightarrow> js_string list" where
  "splitRuns p s =
     (case dropWhile (\<lambda>c. \<not> p c) s of
        [] \<Rightarrow> [s]
      | _ # rest \<Rightarrow> takeWhile (\<lambda>c. \<not> p c) s # splitRuns p (dropWhile p rest))"
  by pat_completeness auto
termination
proof (relation "measure (\<lambda>(p, s). length s)", goal_cases)
  case 1
  show ?case by simp
next
  case (2 p s x rest)
  have "length (dropWhile p rest) \<le> length rest"
    by (rule length_dropWhile_le)
  moreover have "length (dropWhile (\<lambda>c. \<not> p c) s) \<le> length s"
    by (rule length_dropWhile_le)
  ultimately show ?case using 2 by simp
qed

declare splitRuns.simps [simp del]

text \<open>\<open>xs.join(sep)\<close>.\<close>

fun joinWith :: "js_string \<Rightarrow> js_string list \<Rightarrow> js_string" where
  "joinWith sep [] = []"
| "joinWith sep [x] = x"
| "joinWith sep (x # y # ys) = x @ sep @ joinWith sep (y # ys)"

text \<open>The decimal rendering of a natural number, as a template literal prints it.\<close>

definition digit :: "nat \<Rightarrow> code_unit" where
  "digit d = of_nat (48 + d)"

function showNat :: "nat \<Rightarrow> js_string" where
  "showNat n = (if n < 10 then [digit n] else showNat (n div 10) @ [digit (n mod 10)])"
  by pat_completeness auto
termination
  by (relation "measure (\<lambda>n. n)") auto

declare showNat.simps [simp del]

section \<open>chunking.ts\<close>

record Chunk =
  chunk_text :: js_string
  index :: nat
  tokenCount :: nat

text \<open>
  \<open>text.split(/[.!?]+/).map((s) => s.trim()).filter((s) => s.length > 0)\<close>
\<close>

definition splitIntoSentences :: "js_string \<Rightarrow> js_string list" where
  "splitIntoSentences t =
     filter (\<lambda>s. length s > 0) (map trim (splitRuns isTerminator t))"

text \<open>
  \<open>Math.ceil(text.length / 4)\<close>, computed on the naturals
  (lemma \<open>estimateTokenCount_ceiling\<close> below).
\<close>

definition estimateTokenCount :: "js_string \<Rightarrow> nat" where
  "estimateTokenCount t = (length t + 3) div 4"

text \<open>
  The local variables of \<open>chunkText\<close> that its loop updates. The parameters
  \<open>maxTokens\<close> and \<open>overlapTokens\<close> are integers, of either sign; a caller that
  leaves them out gets 500 and 50.
\<close>

record loop_state =
  chunks :: "Chunk list"
  currentChunk :: "js_string list"
  currentTokenCount :: nat
  chunkIndex :: nat

text \<open>
  The inner loop, \<open>for (let i = currentChunk.length - 1; i >= 0; i--)\<close>: it is given
  the sentences of the current chunk last one first, and stops (\<open>break\<close>) at the first
  sentence that does not fit.
\<close>

fun overlapLoop :: "int \<Rightarrow> js_string list \<Rightarrow> js_string list \<Rightarrow> nat \<Rightarrow> js_string list \<times> nat" where
  "overlapLoop overlapTokens [] overlapSentences overlapCount = (overlapSentences, overlapCount)"
| "overlapLoop overlapTokens (s # earlier) overlapSentences overlapCount =
     (let tokens = estimateTokenCount s in
      if int (overlapCount + tokens) \<le> overlapTokens
      then overlapLoop overlapTokens earlier (s # overlapSentences) (overlapCount + tokens)
      else (overlapSentences, overlapCount))"

text \<open>The test of the \<open>if\<close> in the body of the outer loop.\<close>

definition exceeds :: "int \<Rightarrow> loop_state \<Rightarrow> js_string \<Rightarrow> bool" where
  "exceeds maxTokens st sentence \<longleftrightarrow>
     int (currentTokenCount st + estimateTokenCount sentence) > maxTokens
     \<and> length (currentChunk st) > 0"

text \<open>\<open>currentChunk.join('. ') + '.'\<close>\<close>

definition chunkTextOf :: "js_string list \<Rightarrow> js_string" where
  "chunkTextOf sentences = joinWith (js ''. '') sentences @ js ''.''"

text \<open>The branch of the \<open>if\<close>: the current chunk is saved and the overlap is kept.\<close>

definition saveChunk :: "int \<Rightarrow> loop_state \<Rightarrow> loop_state" where
  "saveChunk overlapTokens st =
     (let (overlapSentences, overlapCount) = overlapLoop overlapTokens (rev (currentChunk st)) [] 0
      in st\<lparr>chunks := chunks st @
                [\<lparr>chunk_text = chunkTextOf (currentChunk st),
                  index = chunkIndex st,
                  tokenCount = currentTokenCount st\<rparr>],
            chunkIndex := chunkIndex st + 1,
            currentChunk := overlapSentences,
            currentTokenCount := overlapCount\<rparr>)"

text \<open>One iteration of \<open>for (const sentence of sentences)\<close>.\<close>

definition chunkStep :: "int \<Rightarrow> int \<Rightarrow> loop_state \<Rightarrow> js_string \<Rightarrow> loop_state" where
  "chunkStep maxTokens overlapTokens st sentence =
     (let st' = (if exceeds maxTokens st sentence then saveChunk overlapTokens st else st)
      in st'\<lparr>currentChunk := currentChunk st' @ [sentence],
              currentTokenCount := currentTokenCount st' + estimateTokenCount sentence\<rparr>)"

definition initialState :: loop_state where
  "initialState = \<lparr>chunks = [], currentChunk = [], currentTokenCount = 0, chunkIndex = 0\<rparr>"

text \<open>The part of \<open>chunkText\<close> after the loop: the last chunk is added.\<close>

definition finish :: "loop_state \<Rightarrow> Chunk list" where
  "finish st =
     (if length (currentChunk st) > 0
      then chunks st @
             [\<lparr>chunk_text = chunkTextOf (currentChunk st),
               index = chunkIndex st,
               tokenCount = currentTokenCount st\<rparr>]
      else chunks st)"

definition chunkSentences :: "js_string list \<Rightarrow> int \<Rightarrow> int \<Rightarrow> Chunk list" where
  "chunkSentences sentences maxTokens overlapTokens =
     finish (foldl (chunkStep maxTokens overlapTokens) initialState sentences)"

definition chunkText :: "js_string \<Rightarrow> int \<Rightarrow> int \<Rightarrow> Chunk list" where
  "chunkText t maxTokens overlapTokens =
     chunkSentences (splitIntoSentences t) maxTokens overlapTokens"

text \<open>
  \<open>text.replace(/\s+/g, ' ').replace(/\n+/g, '\n').trim()\<close>
\<close>

definition normalizeText :: "js_string \<Rightarrow> js_string" where
  "normalizeText t =
     trim (replaceRuns isNewline [0x0A] (replaceRuns isWhiteSpace [0x20] t))"

text \<open>
  \<open>/https?:\/\/[^\s]+/.test(text)\<close>: somewhere in the text stands \<open>http://\<close> or
  \<open>https://\<close> with a character after it that is not white space.
\<close>

definition prefixThenNonSpace :: "js_string \<Rightarrow> js_string \<Rightarrow> bool" where
  "prefixThenNonSpace pre s \<longleftrightarrow>
     take (length pre) s = pre
     \<and> (case drop (length pre) s of [] \<Rightarrow> False | c # _ \<Rightarrow> \<not> isWhiteSpace c)"

definition testUrl :: "js_string \<Rightarrow> bool" where
  "testUrl t \<longleftrightarrow>
     list_ex (\<lambda>s. prefixThenNonSpace (js ''http://'') s \<or> prefixThenNonSpace (js ''https://'') s)
       (suffixes t)"

text \<open>
  \<open>/[^\s]+@[^\s]+\.[^\s]+/.test(text)\<close>: somewhere in the text a character that is not
  white space stands before an \<open>@\<close>, and the run of characters other than white space
  after the \<open>@\<close> has a dot with a character before it and a character after it.
\<close>

definition emailAt :: "js_string \<Rightarrow> bool" where
  "emailAt s \<longleftrightarrow>
     (case s of
        a # b # rest \<Rightarrow>
          \<not> isWhiteSpace a \<and> b = 0x40
          \<and> (let run = takeWhile (\<lambda>c. \<not> isWhiteSpace c) rest
             in list_ex (\<lambda>j. run ! j = 0x2E) [1 ..< length run - 1])
      | _ \<Rightarrow> False)"

definition testEmail :: "js_string \<Rightarrow> bool" where
  "testEmail t \<longleftrightarrow> list_ex emailAt (suffixes t)"

record Metadata =
  wordCount :: nat
  charCount :: nat
  hasUrl :: bool
  hasEmail :: bool
  language :: js_string

definition extractMetadata :: "js_string \<Rightarrow> Metadata" where
  "extractMetadata t =
     \<lparr>wordCount = length (splitRuns isWhiteSpace t),
      charCount = length t,
      hasUrl = testUrl t,
      hasEmail = testEmail t,
      language = js ''en''\<rparr>"

section \<open>vector-store.ts\<close>

text \<open>
  A value of a \<open>Record<string, any>\<close>, and the record itself as a map from its keys.
  The order of the keys of an object plays no part below.
\<close>

datatype jsvalue =
    JNull
  | JBool bool
  | JNum real
  | JStr js_string
  | JArr "jsvalue list"
  | JObj "(js_string \<times> jsvalue) list"

type_synonym metadata = "js_string \<rightharpoonup> jsvalue"

datatype uuid = UUID nat

record Payload =
  payload_text :: js_string
  userId :: js_string
  timestamp :: nat
  payload_metadata :: "metadata option"

record Point =
  point_id :: uuid
  vector :: "real list"
  payload :: Payload

text \<open>
  Modelled from the spec: the vector database engine behind \<open>QdrantClient\<close>, which the
  repository calls and does not contain. A collection has the dimension it was created
  with (\<open>VECTOR_SIZE\<close> in \<open>initialize\<close>) and its points; writing or querying a vector
  of another dimension fails. The similarity of two vectors (\<open>Cosine\<close> in
  \<open>initialize\<close>) is a parameter of the search.
\<close>

record Collection =
  dimension :: nat
  points :: "Point list"

text \<open>
  What a call throws: an \<open>Error\<close> with its message, or what the vector store or the
  chat service has thrown, which the memory system passes on as it is.
\<close>

datatype error = Error js_string | StoreError | ChatError

record ScoredPoint =
  scored_id :: uuid
  score :: real
  scored_payload :: Payload

text \<open>
  Modelled from the spec: \<open>upsert(id, vector, payload)\<close> of the vector store. A vector
  of the wrong dimension fails the write; a point with the identifier of a stored point
  replaces it, any other point is added.
\<close>

definition qdrant_upsert :: "Collection \<Rightarrow> Point \<Rightarrow> error + Collection" where
  "qdrant_upsert col p =
     (if length (vector p) \<noteq> dimension col then Inl StoreError
      else if list_ex (\<lambda>q. point_id q = point_id p) (points col)
      then Inr (col\<lparr>points := map (\<lambda>q. if point_id q = point_id p then p else q) (points col)\<rparr>)
      else Inr (col\<lparr>points := points col @ [p]\<rparr>))"

text \<open>
  Modelled from the spec: \<open>search(vector, filter={userId}, limit, scoreThreshold)\<close> of
  the vector store: the \<open>limit\<close> closest points whose payload has the given
  \<open>userId\<close> and whose similarity is at least \<open>scoreThreshold\<close>, by descending
  similarity.
\<close>

definition qdrant_search ::
  "(real list \<Rightarrow> real list \<Rightarrow> real) \<Rightarrow> Collection \<Rightarrow> real list \<Rightarrow> js_string \<Rightarrow> nat \<Rightarrow> real
    \<Rightarrow> error + ScoredPoint list" where
  "qdrant_search similarity col v uid limit score_threshold =
     (if length v \<noteq> dimension col then Inl StoreError
      else Inr (take limit
             (sort_key (\<lambda>r. - score r)
               (filter (\<lambda>r. score r \<ge> score_threshold)
                 (map (\<lambda>p. \<lparr>scored_id = point_id p,
                            score = similarity v (vector p),
                            scored_payload = payload p\<rparr>)
                   (filter (\<lambda>p. userId (payload p) = uid) (points col)))))))"

record SearchResult =
  result_id :: uuid
  result_score :: real
  result_text :: js_string
  result_timestamp :: nat
  result_metadata :: "metadata option"

text \<open>\<open>VectorStore.addMemory\<close>\<close>

definition VectorStore_addMemory :: "Collection \<Rightarrow> uuid \<Rightarrow> real list \<Rightarrow> Payload \<Rightarrow> error + Collection" where
  "VectorStore_addMemory col ident embedding pl =
     qdrant_upsert col \<lparr>point_id = ident, vector = embedding, payload = pl\<rparr>"

text \<open>\<open>VectorStore.search\<close>, with its defaults \<open>limit = 5\<close> and \<open>scoreThreshold = 0.5\<close>.\<close>

definition VectorStore_search ::
  "(real list \<Rightarrow> real list \<Rightarrow> real) \<Rightarrow> Collection \<Rightarrow> real list \<Rightarrow> js_string \<Rightarrow> nat option
    \<Rightarrow> real option \<Rightarrow> error + SearchResult list" where
  "VectorStore_search similarity col embedding uid limit scoreThreshold =
     (case qdrant_search similarity col embedding uid
             (case limit of None \<Rightarrow> 5 | Some l \<Rightarrow> l)
             (case scoreThreshold of None \<Rightarrow> 0.5 | Some t \<Rightarrow> t) of
        Inl e \<Rightarrow> Inl e
      | Inr results \<Rightarrow>
          Inr (map (\<lambda>result. \<lparr>result_id = scored_id result,
                              result_score = score result,
                              result_text = payload_text (scored_payload result),
                              result_timestamp = timestamp (scored_payload result),
                              result_metadata = payload_metadata (scored_payload result)\<rparr>)
                 results))"

section \<open>memory-system.ts\<close>

record MemoryConfig =
  embeddingModel :: js_string
  chatModel :: js_string
  maxChunkTokens :: int
  configOverlapTokens :: int
  qdrantUrl :: js_string

text \<open>
  The services the memory system calls and the repository does not contain:
  \<open>ollama.embeddings\<close> and \<open>ollama.chat\<close> (\<open>None\<close> when the call throws), the
  similarity of the vector database, and \<open>Number.prototype.toFixed\<close>. What the
  embedding service answers may change from one call to the next: its first argument is
  the number of calls made before.
\<close>

record Services =
  embeddings :: "nat \<Rightarrow> js_string \<Rightarrow> js_string \<Rightarrow> real list option"
  chatCompletion :: "js_string \<Rightarrow> (js_string \<times> js_string) list \<Rightarrow> js_string option"
  similarity :: "real list \<Rightarrow> real list \<Rightarrow> real"
  toFixed :: "real \<Rightarrow> nat \<Rightarrow> js_string"

text \<open>
  What a call reads and changes besides its arguments: the collection of the vector
  store, the identifiers \<open>randomUUID\<close> has handed out, the clock behind
  \<open>Date.now\<close>, and the number of calls made to the embedding service. The lines
  written to the console are left out.
\<close>

record World =
  collection :: Collection
  uuidsDrawn :: nat
  clock :: nat
  embeddingCalls :: nat

text \<open>\<open>randomUUID()\<close>: an identifier that no earlier call has returned.\<close>

definition randomUUID :: "World \<Rightarrow> uuid \<times> World" where
  "randomUUID w = (UUID (uuidsDrawn w), w\<lparr>uuidsDrawn := uuidsDrawn w + 1\<rparr>)"

definition embeddingFailure :: "js_string \<Rightarrow> js_string" where
  "embeddingFailure model =
     js ''Failed to generate embedding. Is Ollama running with '' @ model @ js '' model?''"

definition generateEmbedding ::
  "MemoryConfig \<Rightarrow> Services \<Rightarrow> World \<Rightarrow> js_string \<Rightarrow> (error + real list) \<times> World" where
  "generateEmbedding cfg sv w t =
     (case embeddings sv (embeddingCalls w) (embeddingModel cfg) t of
        Some embedding \<Rightarrow> Inr embedding
      | None \<Rightarrow> Inl (Error (embeddingFailure (embeddingModel cfg))),
      w\<lparr>embeddingCalls := embeddingCalls w + 1\<rparr>)"

text \<open>The object that \<open>extractMetadata\<close> returns, as a map from its keys.\<close>

definition metadataObject :: "Metadata \<Rightarrow> metadata" where
  "metadataObject m =
     [js ''wordCount'' \<mapsto> JNum (real (wordCount m)),
      js ''charCount'' \<mapsto> JNum (real (charCount m)),
      js ''hasUrl'' \<mapsto> JBool (hasUrl m),
      js ''hasEmail'' \<mapsto> JBool (hasEmail m),
      js ''language'' \<mapsto> JStr (language m)]"

text \<open>
  \<open>{ ...metadata, ...extractMetadata(chunk.text), chunkIndex: chunk.index,
  totalChunks: chunks.length }\<close>: a later entry replaces an earlier one with its key.
\<close>

definition chunkMetadata :: "metadata \<Rightarrow> Chunk \<Rightarrow> nat \<Rightarrow> metadata" where
  "chunkMetadata md chunk totalChunks =
     md ++ metadataObject (extractMetadata (chunk_text chunk))
        ++ [js ''chunkIndex'' \<mapsto> JNum (real (index chunk)),
            js ''totalChunks'' \<mapsto> JNum (real totalChunks)]"

text \<open>
  The payload written for a chunk:
  \<open>{ text: chunk.text, userId, timestamp: Date.now(), metadata: chunkMetadata }\<close>
\<close>

definition chunkPayload :: "js_string \<Rightarrow> metadata \<Rightarrow> nat \<Rightarrow> nat \<Rightarrow> Chunk \<Rightarrow> Payload" where
  "chunkPayload uid md totalChunks now chunk =
     \<lparr>payload_text = chunk_text chunk,
      userId = uid,
      timestamp = now,
      payload_metadata = Some (chunkMetadata md chunk totalChunks)\<rparr>"

text \<open>
  The loop \<open>for (const chunk of chunks)\<close> of \<open>addMemory\<close>. A failed call leaves the
  loop at once, with the world as the calls before it have left it.
\<close>

fun addMemoryLoop ::
  "MemoryConfig \<Rightarrow> Services \<Rightarrow> js_string \<Rightarrow> metadata \<Rightarrow> nat \<Rightarrow> Chunk list \<Rightarrow> uuid list \<Rightarrow> World
    \<Rightarrow> (error + uuid list) \<times> World" where
  "addMemoryLoop cfg sv uid md totalChunks [] memoryIds w = (Inr memoryIds, w)"
| "addMemoryLoop cfg sv uid md totalChunks (chunk # rest) memoryIds w =
     (let (ident, w1) = randomUUID w;
          (embedded, w2) = generateEmbedding cfg sv w1 (chunk_text chunk)
      in case embedded of
           Inl e \<Rightarrow> (Inl e, w2)
         | Inr embedding \<Rightarrow>
             (case VectorStore_addMemory (collection w2) ident embedding
                     (chunkPayload uid md totalChunks (clock w2) chunk) of
                Inl e \<Rightarrow> (Inl e, w2)
              | Inr col \<Rightarrow>
                  addMemoryLoop cfg sv uid md totalChunks rest (memoryIds @ [ident])
                    (w2\<lparr>collection := col\<rparr>)))"

definition addMemory ::
  "MemoryConfig \<Rightarrow> Services \<Rightarrow> World \<Rightarrow> js_string \<Rightarrow> js_string \<Rightarrow> metadata option
    \<Rightarrow> (error + uuid list) \<times> World" where
  "addMemory cfg sv w uid content md =
     (let normalized = normalizeText content;
          chunkList = chunkText normalized (maxChunkTokens cfg) (configOverlapTokens cfg)
      in addMemoryLoop cfg sv uid (case md of None \<Rightarrow> Map.empty | Some m \<Rightarrow> m)
           (length chunkList) chunkList [] w)"

definition searchMemories ::
  "MemoryConfig \<Rightarrow> Services \<Rightarrow> World \<Rightarrow> js_string \<Rightarrow> js_string \<Rightarrow> nat option \<Rightarrow> real option
    \<Rightarrow> (error + SearchResult list) \<times> World" where
  "searchMemories cfg sv w uid query limit scoreThreshold =
     (let (embedded, w1) = generateEmbedding cfg sv w query
      in case embedded of
           Inl e \<Rightarrow> (Inl e, w1)
         | Inr queryEmbedding \<Rightarrow>
             (VectorStore_search (similarity sv) (collection w1) queryEmbedding uid
                (Some (case limit of None \<Rightarrow> 5 | Some l \<Rightarrow> l))
                (Some (case scoreThreshold of None \<Rightarrow> 0.5 | Some t \<Rightarrow> t)),
              w1))"

text \<open>
  \<open>`[Memory ${i + 1}] (relevance: ${(m.score * 100).toFixed(1)}%)\n${m.text}`\<close>
\<close>

definition memoryLine :: "Services \<Rightarrow> nat \<Rightarrow> SearchResult \<Rightarrow> js_string" where
  "memoryLine sv i m =
     js ''[Memory '' @ showNat (i + 1) @ js ''] (relevance: ''
       @ toFixed sv (result_score m * 100) 1 @ js ''%)'' @ [0x0A] @ result_text m"

definition memoryContext :: "Services \<Rightarrow> SearchResult list \<Rightarrow> js_string" where
  "memoryContext sv memories =
     joinWith [0x0A, 0x0A] (map (\<lambda>(i, m). memoryLine sv i m) (enumerate 0 memories))"

definition defaultSystemPrompt :: js_string where
  "defaultSystemPrompt =
     js ''You are a helpful AI assistant with access to the user'' @ [0x27]
       @ js ''s memories.''"

record ChatResult =
  response :: js_string
  memoriesUsed :: nat

definition contextBlock :: "Services \<Rightarrow> SearchResult list \<Rightarrow> js_string" where
  "contextBlock sv memories =
     [0x0A, 0x0A] @ js ''### Relevant memories from past conversations:'' @ [0x0A]
       @ memoryContext sv memories @ [0x0A, 0x0A]
       @ js ''### Use this context to provide a more personalized response.''"

text \<open>
  The first part of \<open>chat\<close>: the system prompt, with the memories found when the
  context is enabled and the search has returned any.
\<close>

definition chatContext ::
  "MemoryConfig \<Rightarrow> Services \<Rightarrow> World \<Rightarrow> js_string \<Rightarrow> js_string \<Rightarrow> js_string \<Rightarrow> bool \<Rightarrow> nat
    \<Rightarrow> (error + js_string) \<times> World" where
  "chatContext cfg sv w uid message systemPrompt includeMemoryContext maxContextMemories =
     (if includeMemoryContext
      then (let (found, w1) = searchMemories cfg sv w uid message (Some maxContextMemories) None
            in case found of
                 Inl e \<Rightarrow> (Inl e, w1)
               | Inr memories \<Rightarrow>
                   (Inr (if length memories > 0
                         then systemPrompt @ contextBlock sv memories
                         else systemPrompt),
                    w1))
      else (Inr systemPrompt, w))"

definition chat ::
  "MemoryConfig \<Rightarrow> Services \<Rightarrow> World \<Rightarrow> js_string \<Rightarrow> js_string \<Rightarrow> js_string option \<Rightarrow> bool option
    \<Rightarrow> nat option \<Rightarrow> (error + ChatResult) \<times> World" where
  "chat cfg sv w uid message systemPromptOpt includeOpt maxOpt =
     (let systemPrompt = (case systemPromptOpt of None \<Rightarrow> defaultSystemPrompt | Some p \<Rightarrow> p);
          includeMemoryContext = (case includeOpt of None \<Rightarrow> True | Some b \<Rightarrow> b);
          maxContextMemories = (case maxOpt of None \<Rightarrow> 5 | Some n \<Rightarrow> n);
          (context, w1) =
            chatContext cfg sv w uid message systemPrompt includeMemoryContext maxContextMemories
      in case context of
           Inl e \<Rightarrow> (Inl e, w1)
         | Inr contextPrompt \<Rightarrow>
             (case chatCompletion sv (chatModel cfg)
                     [(js ''system'', contextPrompt), (js ''user'', message)] of
                None \<Rightarrow> (Inl ChatError, w1)
              | Some content \<Rightarrow>
                  (Inr \<lparr>response = content,
                        memoriesUsed = (if includeMemoryContext then maxContextMemories else 0)\<rparr>,
                   w1)))"

section \<open>Notions the properties are stated with\<close>

text \<open>
  The sentences a chunk is made of: the value of \<open>currentChunk\<close> each time the loop
  of \<open>chunkText\<close> saves a chunk, and at the end, when the last chunk is added.
\<close>

fun savedSentences :: "int \<Rightarrow> int \<Rightarrow> loop_state \<Rightarrow> js_string list \<Rightarrow> js_string list list" where
  "savedSentences maxTokens overlapTokens st [] =
     (if length (currentChunk st) > 0 then [currentChunk st] else [])"
| "savedSentences maxTokens overlapTokens st (sentence # rest) =
     (if exceeds maxTokens st sentence then [currentChunk st] else [])
       @ savedSentences maxTokens overlapTokens (chunkStep maxTokens overlapTokens st sentence) rest"

definition sentencesOfChunks :: "js_string \<Rightarrow> int \<Rightarrow> int \<Rightarrow> js_string list list" where
  "sentencesOfChunks t maxTokens overlapTokens =
     savedSentences maxTokens overlapTokens initialState (splitIntoSentences t)"

text \<open>The estimated token count of a list of sentences, sentence by sentence.\<close>

definition sumTokens :: "js_string list \<Rightarrow> nat" where
  "sumTokens sentences = sum_list (map estimateTokenCount sentences)"

text \<open>The sentences that the inner loop keeps of a saved chunk.\<close>

definition overlapOf :: "int \<Rightarrow> js_string list \<Rightarrow> js_string list" where
  "overlapOf overlapTokens sentences = fst (overlapLoop overlapTokens (rev sentences) [] 0)"

text \<open>
  A string in which every white space character is a space that stands alone, and a
  string with no white space at either end.
\<close>

fun spaced :: "js_string \<Rightarrow> bool" where
  "spaced [] = True"
| "spaced (c # cs) =
     ((isWhiteSpace c \<longrightarrow> c = 0x20 \<and> (case cs of [] \<Rightarrow> True | d # _ \<Rightarrow> \<not> isWhiteSpace d))
      \<and> spaced cs)"

definition trimmed :: "js_string \<Rightarrow> bool" where
  "trimmed s \<longleftrightarrow> (s = [] \<or> (\<not> isWhiteSpace (hd s) \<and> \<not> isWhiteSpace (last s)))"

text \<open>The words of a string: the pieces between its runs of white space that are not empty.\<close>

definition wordsOf :: "js_string \<Rightarrow> js_string list" where
  "wordsOf t = filter (\<lambda>w. w \<noteq> []) (splitRuns isWhiteSpace t)"

abbreviation collapse :: "js_string \<Rightarrow> js_string" where
  "collapse \<equiv> replaceRuns isWhiteSpace [0x20]"

abbreviation nonws :: "code_unit \<Rightarrow> bool" where
  "nonws \<equiv> (\<lambda>c. \<not> isWhiteSpace c)"

text \<open>The chunk made of a list of sentences, with its index.\<close>

definition chunkOf :: "nat \<times> js_string list \<Rightarrow> Chunk" where
  "chunkOf = (\<lambda>(i, g). \<lparr>chunk_text = chunkTextOf g, index = i, tokenCount = sumTokens g\<rparr>)"

text \<open>The loop of \<open>chunkText\<close> keeps the token count of the sentences it holds.\<close>

definition counted :: "loop_state \<Rightarrow> bool" where
  "counted st \<longleftrightarrow> currentTokenCount st = sumTokens (currentChunk st)"

text \<open>
  A chunk and the next one: the next one starts with the overlap of the first and goes
  on with at least one more sentence.
\<close>

definition overlaps :: "int \<Rightarrow> js_string list \<Rightarrow> js_string list \<Rightarrow> bool" where
  "overlaps overlapTokens g g' \<longleftrightarrow> (\<exists>rest. rest \<noteq> [] \<and> g' = overlapOf overlapTokens g @ rest)"

text \<open>
  The keys that \<open>addMemory\<close> derives: those of \<open>extractMetadata\<close>, and the two the
  loop adds.
\<close>

definition derivedKeys :: "js_string list" where
  "derivedKeys =
     [js ''wordCount'', js ''charCount'', js ''hasUrl'', js ''hasEmail'', js ''language'',
      js ''chunkIndex'', js ''totalChunks'']"

section \<open>A small system to run the operations on\<close>

text \<open>
  A configuration with small chunks, services that answer the first \<open>k\<close> calls to the
  embedding service, and a store that holds three memories of one user and one of
  another. The vectors have one component, and the similarity is their product.
\<close>

definition demoConfig :: MemoryConfig where
  "demoConfig =
     \<lparr>embeddingModel = js ''nomic-embed-text'',
      chatModel = js ''llama3.2'',
      maxChunkTokens = 2,
      configOverlapTokens = 1,
      qdrantUrl = js ''http://localhost:6333''\<rparr>"

definition demoServices :: "nat \<Rightarrow> Services" where
  "demoServices k =
     \<lparr>embeddings = (\<lambda>n model t. if n < k then Some [1] else None),
      chatCompletion = (\<lambda>model messages. Some (js ''ok'')),
      similarity = (\<lambda>a b. sum_list (map2 (*) a b)),
      toFixed = (\<lambda>x digits. js ''90.0'')\<rparr>"

definition demoPoint :: "nat \<Rightarrow> real \<Rightarrow> string \<Rightarrow> string \<Rightarrow> Point" where
  "demoPoint n x uid t =
     \<lparr>point_id = UUID n,
      vector = [x],
      payload = \<lparr>payload_text = js t, userId = js uid, timestamp = 0,
                 payload_metadata = None\<rparr>\<rparr>"

definition demoWorld :: World where
  "demoWorld =
     \<lparr>collection =
        \<lparr>dimension = 1,
         points = [demoPoint 0 (7 / 10) ''alice'' ''likes coffee'',
                   demoPoint 1 1 ''bob'' ''likes tea too'',
                   demoPoint 2 (9 / 10) ''alice'' ''likes tea'',
                   demoPoint 3 (2 / 10) ''alice'' ''plays chess'']\<rparr>,
      uuidsDrawn = 4,
      clock = 0,
      embeddingCalls = 0\<rparr>"

definition demoMetadata :: metadata where
  "demoMetadata = [js ''wordCount'' \<mapsto> JNum 99, js ''type'' \<mapsto> JStr (js ''note'')]"

definition demoResult :: "nat \<Rightarrow> real \<Rightarrow> string \<Rightarrow> SearchResult" where
  "demoResult n x t =
     \<lparr>result_id = UUID n, result_score = x, result_text = js t, result_timestamp = 0,
      result_metadata = None\<rparr>"

section \<open>normalizeText\<close>

lemma ws_space: "isWhiteSpace 0x20" by (simp add: isWhiteSpace_def)
lemma nl_ws: "isNewline c \<Longrightarrow> isWhiteSpace c" by (simp add: isWhiteSpace_def isNewline_def)
lemma space_not_nl: "\<not> isNewline 0x20" by (simp add: isNewline_def)

lemma dropWhile_head: "case dropWhile p xs of [] \<Rightarrow> True | d # _ \<Rightarrow> \<not> p d"
  by (induction xs) simp_all

lemma replaceRuns_dropWhile_head:
  "case replaceRuns p r (dropWhile p xs) of [] \<Rightarrow> True | d # _ \<Rightarrow> \<not> p d"
proof (cases "dropWhile p xs")
  case Nil
  then show ?thesis by (simp del: dropWhile_eq_Nil_conv)
next
  case (Cons d ds)
  with dropWhile_head[of p xs] have "\<not> p d" by (simp del: dropWhile_eq_Nil_conv)
  with Cons show ?thesis by (simp del: dropWhile_eq_Nil_conv)
qed

lemma spaced_replaceRuns: "spaced (replaceRuns isWhiteSpace [0x20] t)"
proof (induction "isWhiteSpace" "[0x20 :: code_unit]" t rule: replaceRuns.induct)
  case 1
  show ?case by simp
next
  case (2 c cs)
  show ?case
  proof (cases "isWhiteSpace c")
    case True
    with 2 replaceRuns_dropWhile_head[of isWhiteSpace "[0x20]" cs] show ?thesis by simp
  next
    case False
    with 2 show ?thesis by simp
  qed
qed

lemma replaceRuns_spaced: "spaced s \<Longrightarrow> replaceRuns isWhiteSpace [0x20] s = s"
proof (induction s)
  case Nil
  show ?case by simp
next
  case (Cons c cs)
  show ?case
  proof (cases "isWhiteSpace c")
    case True
    with Cons.prems have c: "c = 0x20" and nx: "case cs of [] \<Rightarrow> True | d # _ \<Rightarrow> \<not> isWhiteSpace d"
      and sp: "spaced cs" by simp_all
    from nx have "dropWhile isWhiteSpace cs = cs" by (cases cs) simp_all
    with True c Cons.IH[OF sp] show ?thesis by simp
  next
    case False
    with Cons show ?thesis by simp
  qed
qed

lemma replaceRuns_none: "\<forall>c\<in>set s. \<not> p c \<Longrightarrow> replaceRuns p r s = s"
  by (induction s) simp_all

lemma spaced_no_newline: "spaced s \<Longrightarrow> c \<in> set s \<Longrightarrow> \<not> isNewline c"
  by (induction s) (auto simp: space_not_nl dest: nl_ws)

lemma spaced_append: "spaced (xs @ ys) \<Longrightarrow> spaced xs"
proof (induction xs)
  case Nil
  show ?case by simp
next
  case (Cons c cs)
  then show ?case by (cases cs) (auto split: list.splits)
qed

lemma spaced_suffix: "spaced (xs @ ys) \<Longrightarrow> spaced ys"
  by (induction xs) simp_all

lemma trimEnd_decomp: "trimEnd s @ rev (takeWhile isWhiteSpace (rev s)) = s"
  unfolding trimEnd_def by (metis rev_append rev_rev_ident takeWhile_dropWhile_id)

lemma trimStart_decomp: "takeWhile isWhiteSpace s @ trimStart s = s"
  unfolding trimStart_def by simp

lemma spaced_trim: "spaced s \<Longrightarrow> spaced (trim s)"
  unfolding trim_def
  by (metis spaced_append spaced_suffix trimEnd_decomp trimStart_decomp)

lemma trimStart_id: "s = [] \<or> \<not> isWhiteSpace (hd s) \<Longrightarrow> trimStart s = s"
  unfolding trimStart_def by (simp add: dropWhile_eq_self_iff)

lemma trimEnd_id: "s = [] \<or> \<not> isWhiteSpace (last s) \<Longrightarrow> trimEnd s = s"
  unfolding trimEnd_def
  by (metis dropWhile_eq_self_iff last_rev rev.simps(1) rev_rev_ident)

lemma trimStart_head: "trimStart s = [] \<or> \<not> isWhiteSpace (hd (trimStart s))"
  unfolding trimStart_def using hd_dropWhile[of isWhiteSpace s] by blast

lemma trimEnd_last: "trimEnd s = [] \<or> \<not> isWhiteSpace (last (trimEnd s))"
  unfolding trimEnd_def
  by (metis Nil_is_rev_conv hd_dropWhile last_rev)

lemma trimEnd_keeps_head:
  "s \<noteq> [] \<Longrightarrow> \<not> isWhiteSpace (hd s) \<Longrightarrow> trimEnd s \<noteq> [] \<and> hd (trimEnd s) = hd s"
  by (metis append.left_neutral hd_append2 list.set_sel(1) set_rev
      set_takeWhileD trimEnd_decomp)

lemma trimmed_trim: "trimmed (trim s)"
  unfolding trimmed_def trim_def
  using trimStart_head[of s] trimEnd_last[of "trimStart s"] trimEnd_keeps_head[of "trimStart s"]
  by (metis trimEnd_id)

lemma trim_trimmed: "trimmed s \<Longrightarrow> trim s = s"
  unfolding trimmed_def trim_def
  by (metis trimEnd_id trimStart_id)

lemma normalizeText_eq: "normalizeText t = trim (replaceRuns isWhiteSpace [0x20] t)"
proof -
  have "\<forall>c\<in>set (replaceRuns isWhiteSpace [0x20] t). \<not> isNewline c"
    using spaced_no_newline[OF spaced_replaceRuns] by blast
  then show ?thesis
    unfolding normalizeText_def by (simp only: replaceRuns_none)
qed

lemma normalizeText_spaced: "spaced (normalizeText t)"
  by (simp add: normalizeText_eq spaced_trim spaced_replaceRuns)

lemma normalizeText_trimmed: "trimmed (normalizeText t)"
  by (simp add: normalizeText_eq trimmed_trim)

lemma normalizeText_fixed: "spaced s \<Longrightarrow> trimmed s \<Longrightarrow> normalizeText s = s"
  by (simp add: normalizeText_eq replaceRuns_spaced trim_trimmed)


lemma wordsOf_Nil: "wordsOf [] = []"
  unfolding wordsOf_def by (subst splitRuns.simps) simp

lemma wordsOf_space:
  assumes "isWhiteSpace c"
  shows "wordsOf (c # cs) = wordsOf (dropWhile isWhiteSpace cs)"
proof -
  have "splitRuns isWhiteSpace (c # cs) = [] # splitRuns isWhiteSpace (dropWhile isWhiteSpace cs)"
    using assms by (subst splitRuns.simps) simp
  then show ?thesis
    by (simp add: wordsOf_def)
qed

lemma wordsOf_dropWhile: "wordsOf (dropWhile isWhiteSpace s) = wordsOf s"
  by (cases s) (simp_all add: wordsOf_space)

lemma wordsOf_word:
  assumes c: "\<not> isWhiteSpace c"
  shows "wordsOf (c # cs) = (c # takeWhile nonws cs) # wordsOf (dropWhile nonws cs)"
proof (cases "dropWhile nonws cs")
  case Nil
  have sr: "splitRuns isWhiteSpace (c # cs) = [c # cs]"
    using c Nil by (subst splitRuns.simps) (simp del: dropWhile_eq_Nil_conv)
  have tw: "takeWhile nonws cs = cs"
    using Nil by simp
  have "wordsOf (c # cs) = [c # cs]"
    by (simp add: wordsOf_def sr)
  then show ?thesis
    unfolding Nil tw wordsOf_Nil .
next
  case (Cons x rest)
  have x: "isWhiteSpace x"
    using Cons dropWhile_head[of nonws cs] by (simp del: dropWhile_eq_Nil_conv)
  have "splitRuns isWhiteSpace (c # cs)
          = (c # takeWhile nonws cs) # splitRuns isWhiteSpace (dropWhile isWhiteSpace rest)"
    using c Cons by (subst splitRuns.simps) (simp del: dropWhile_eq_Nil_conv)
  then have "wordsOf (c # cs) = (c # takeWhile nonws cs) # wordsOf (dropWhile isWhiteSpace rest)"
    by (simp add: wordsOf_def)
  then show ?thesis
    using Cons x by (simp add: wordsOf_space)
qed

lemma collapse_word: "collapse s = takeWhile nonws s @ collapse (dropWhile nonws s)"
  by (induction s) simp_all

lemma trimEnd_append:
  "trimEnd (a @ b) = (if trimEnd b = [] then trimEnd a else a @ trimEnd b)"
  unfolding trimEnd_def by (simp add: dropWhile_append)

lemma collapse_head: "s = [] \<or> \<not> isWhiteSpace (hd s) \<Longrightarrow> collapse s = [] \<or> \<not> isWhiteSpace (hd (collapse s))"
  by (cases s) auto

lemma trimStart_collapse: "trimStart (collapse s) = collapse (dropWhile isWhiteSpace s)"
proof -
  let ?d = "dropWhile isWhiteSpace s"
  have d: "?d = [] \<or> \<not> isWhiteSpace (hd ?d)"
    using hd_dropWhile[of isWhiteSpace s] by blast
  have "trimStart (collapse s) = trimStart (collapse ?d)"
  proof (cases s)
    case Nil
    then show ?thesis by simp
  next
    case (Cons c cs)
    show ?thesis
    proof (cases "isWhiteSpace c")
      case True
      with Cons show ?thesis by (simp add: trimStart_def ws_space)
    next
      case False
      with Cons show ?thesis by simp
    qed
  qed
  also have "\<dots> = collapse ?d"
    using collapse_head[OF d] by (rule trimStart_id)
  finally show ?thesis .
qed

text \<open>normalizeText by cases on the first character\<close>

lemma normalizeText_via: "normalizeText s = trimEnd (collapse (dropWhile isWhiteSpace s))"
  by (simp add: normalizeText_eq trim_def trimStart_collapse)

lemma normalizeText_Nil: "normalizeText [] = []"
  by (simp add: normalizeText_via trimEnd_def)

lemma normalizeText_space: "isWhiteSpace c \<Longrightarrow> normalizeText (c # cs) = normalizeText cs"
  by (simp add: normalizeText_via)

lemma normalizeText_word:
  assumes c: "\<not> isWhiteSpace c"
  shows "normalizeText (c # cs) =
           (if normalizeText (dropWhile nonws cs) = [] then c # takeWhile nonws cs
            else (c # takeWhile nonws cs) @ 0x20 # normalizeText (dropWhile nonws cs))"
proof -
  let ?w = "c # takeWhile nonws cs"
  let ?d = "dropWhile nonws cs"
  have "\<not> isWhiteSpace (last ?w)"
    using c set_takeWhileD[of "last (takeWhile nonws cs)" nonws cs]
    by (cases "takeWhile nonws cs = []") simp_all
  then have w: "trimEnd ?w = ?w"
    by (simp add: trimEnd_id)
  have 1: "normalizeText (c # cs) = trimEnd (?w @ collapse ?d)"
    using c by (simp add: normalizeText_via collapse_word[of cs])
  show ?thesis
  proof (cases ?d)
    case Nil
    then show ?thesis using 1 w by (simp add: normalizeText_Nil del: dropWhile_eq_Nil_conv)
  next
    case (Cons x rest)
    have x: "isWhiteSpace x"
      using Cons dropWhile_head[of nonws cs] by (simp del: dropWhile_eq_Nil_conv)
    have 2: "collapse ?d = 0x20 # collapse (dropWhile isWhiteSpace rest)"
      using Cons x by simp
    have 3: "normalizeText ?d = trimEnd (collapse (dropWhile isWhiteSpace rest))"
      using Cons x by (simp add: normalizeText_via)
    have 4: "trimEnd [0x20] = []"
      by (simp add: trimEnd_def ws_space)
    have "trimEnd (0x20 # collapse (dropWhile isWhiteSpace rest))
            = (if normalizeText ?d = [] then [] else 0x20 # normalizeText ?d)"
      using trimEnd_append[of "[0x20]" "collapse (dropWhile isWhiteSpace rest)"] 3 4 by simp
    then show ?thesis
      unfolding 1 2 using w trimEnd_append[of ?w "0x20 # collapse (dropWhile isWhiteSpace rest)"]
      by simp
  qed
qed

lemma joinWith_Cons:
  "joinWith sep (x # xs) = (if xs = [] then x else x @ sep @ joinWith sep xs)"
  by (cases xs) simp_all

lemma wordsOf_nonempty: "w \<in> set (wordsOf s) \<Longrightarrow> w \<noteq> []"
  by (simp add: wordsOf_def)

lemma joinWith_Nil_iff: "\<forall>w\<in>set ws. w \<noteq> [] \<Longrightarrow> joinWith sep ws = [] \<longleftrightarrow> ws = []"
  by (cases ws) (simp_all add: joinWith_Cons)

lemma normalizeText_wordsOf: "normalizeText s = joinWith [0x20] (wordsOf s)"
proof (induction s rule: measure_induct_rule[of length])
  case (less s)
  show ?case
  proof (cases s)
    case Nil
    then show ?thesis by (simp add: normalizeText_Nil wordsOf_Nil)
  next
    case (Cons c cs)
    show ?thesis
    proof (cases "isWhiteSpace c")
      case True
      have "normalizeText cs = joinWith [0x20] (wordsOf cs)"
        using less[of cs] Cons by simp
      then show ?thesis
        using True Cons by (simp add: normalizeText_space wordsOf_space wordsOf_dropWhile)
    next
      case False
      let ?d = "dropWhile nonws cs"
      have "length ?d < length s"
        using Cons length_dropWhile_le[of nonws cs] by simp
      then have ih: "normalizeText ?d = joinWith [0x20] (wordsOf ?d)"
        by (rule less)
      have "joinWith [0x20] (wordsOf ?d) = [] \<longleftrightarrow> wordsOf ?d = []"
        by (rule joinWith_Nil_iff) (simp add: wordsOf_nonempty)
      then show ?thesis
        unfolding Cons normalizeText_word[OF False] wordsOf_word[OF False] ih
        by (simp add: joinWith_Cons)
    qed
  qed
qed

lemma replaceRuns_append:
  "a \<noteq> [] \<Longrightarrow> \<not> p (last a) \<Longrightarrow> replaceRuns p r (a @ b) = replaceRuns p r a @ replaceRuns p r b"
proof (induction p r a rule: replaceRuns.induct)
  case (1 p r)
  then show ?case by simp
next
  case (2 p r c cs)
  show ?case
  proof (cases "p c")
    case True
    with "2.prems" have cs: "cs \<noteq> []" "\<not> p (last cs)"
      by (auto split: if_splits)
    let ?d = "dropWhile p cs"
    have ex: "\<exists>x\<in>set cs. \<not> p x"
      using cs last_in_set by blast
    then have d: "?d \<noteq> []" by simp
    have l: "last ?d = last cs"
      using d by (metis last_appendR takeWhile_dropWhile_id)
    have "dropWhile p (cs @ b) = ?d @ b"
      using ex by (auto intro: dropWhile_append1)
    then show ?thesis
      using True "2.IH"(1)[OF True d] l cs by simp
  next
    case False
    show ?thesis
    proof (cases "cs = []")
      case True
      with False show ?thesis by simp
    next
      case ne: False
      with "2.prems" have "\<not> p (last cs)" by simp
      with False ne "2.IH"(2) show ?thesis by simp
    qed
  qed
qed

lemma normalizeText_fixed_iff: "normalizeText s = s \<longleftrightarrow> spaced s \<and> trimmed s"
  by (metis normalizeText_fixed normalizeText_spaced normalizeText_trimmed)

lemma normalizeText_newlines:
  assumes a: "normalizeText a = a" "a \<noteq> []" and b: "normalizeText b = b" "b \<noteq> []"
  shows "normalizeText (a @ replicate (Suc n) 0x0A @ b) = a @ [0x20] @ b"
proof -
  from a b have sa: "spaced a" "trimmed a" and sb: "spaced b" "trimmed b"
    by (simp_all add: normalizeText_fixed_iff)
  have la: "\<not> isWhiteSpace (last a)" and hb: "\<not> isWhiteSpace (hd b)"
    using sa sb a b by (simp_all add: trimmed_def)
  have ha: "\<not> isWhiteSpace (hd a)" and lb: "\<not> isWhiteSpace (last b)"
    using sa sb a b by (simp_all add: trimmed_def)
  have nl: "isWhiteSpace 0x0A"
    by (simp add: isWhiteSpace_def)
  have "dropWhile isWhiteSpace (replicate n 0x0A @ b) = b"
    using hb b(2) nl by (cases b) (simp_all add: dropWhile_append)
  then have "collapse (replicate (Suc n) 0x0A @ b) = 0x20 # collapse b"
    using nl by simp
  then have "collapse (a @ replicate (Suc n) 0x0A @ b) = a @ 0x20 # b"
    using replaceRuns_append[of a isWhiteSpace, OF a(2) la] replaceRuns_spaced[OF sa(1)] replaceRuns_spaced[OF sb(1)]
    by simp
  moreover have "trimmed (a @ 0x20 # b)"
    using ha lb a(2) b(2) by (simp add: trimmed_def)
  ultimately show ?thesis
    by (simp add: normalizeText_eq trim_trimmed)
qed

text \<open>
  C9. \<open>normalizeText\<close> is idempotent: normalizing a normalized string changes nothing.
  It is total: it is defined by recursion on a string that gets shorter, and returns a
  string for every input.
\<close>

theorem normalizeText_idempotent: "normalizeText (normalizeText x) = normalizeText x"
  by (rule normalizeText_fixed[OF normalizeText_spaced normalizeText_trimmed])

text \<open>
  C1, as the code has it. The first replacement of \<open>normalizeText\<close> matches \<open>\s+\<close>,
  and a line feed is white space, so the second replacement finds no line feed left.
  The result is the words of the input joined by single spaces, with no white space at
  either end and no line feed in it; two normalized sentences with line feeds between
  them normalize to the two sentences with exactly one space between them.
\<close>

theorem normalizeText_single_spaces:
  "normalizeText t = joinWith [0x20] (wordsOf t)
   \<and> 0x0A \<notin> set (normalizeText t)
   \<and> (normalizeText a = a \<and> a \<noteq> [] \<and> normalizeText b = b \<and> b \<noteq> []
        \<longrightarrow> normalizeText (a @ replicate (Suc n) 0x0A @ b) = a @ [0x20] @ b)"
proof (intro conjI impI)
  show "normalizeText t = joinWith [0x20] (wordsOf t)"
    by (rule normalizeText_wordsOf)
next
  show "0x0A \<notin> set (normalizeText t)"
    using spaced_no_newline[OF normalizeText_spaced, of "0x0A" t] by (auto simp: isNewline_def)
next
  assume "normalizeText a = a \<and> a \<noteq> [] \<and> normalizeText b = b \<and> b \<noteq> []"
  then show "normalizeText (a @ replicate (Suc n) 0x0A @ b) = a @ [0x20] @ b"
    using normalizeText_newlines[of a b n] by blast
qed

theorem normalizeText_single_spaces_witness:
  "normalizeText (js ''First sentence.'') = js ''First sentence.''
   \<and> normalizeText (js ''Second sentence.'') = js ''Second sentence.''
   \<and> normalizeText (js ''First sentence.'' @ replicate (Suc 1) 0x0A @ js ''Second sentence.'')
       = js ''First sentence.'' @ [0x20] @ js ''Second sentence.''"
proof -
  have a: "normalizeText (js ''First sentence.'') = js ''First sentence.''"
    by code_simp
  have b: "normalizeText (js ''Second sentence.'') = js ''Second sentence.''"
    by code_simp
  have ne: "js ''First sentence.'' \<noteq> []" "js ''Second sentence.'' \<noteq> []"
    by (simp_all add: js_def)
  from a b ne
    normalizeText_single_spaces[of "[]" "js ''First sentence.''" "js ''Second sentence.''" 1]
  show ?thesis by blast
qed

text \<open>
  C1 as the claim states it fails: two sentences with two line feeds between them do
  not normalize to the sentences with one line feed between them.
\<close>

theorem normalizeText_newline_counterexample:
  "normalizeText (js ''First sentence.'' @ [0x0A, 0x0A] @ js ''Second sentence.'')
     \<noteq> js ''First sentence.'' @ [0x0A] @ js ''Second sentence.''"
  by code_simp

section \<open>chunkText\<close>

lemma estimateTokenCount_ceiling: "int (estimateTokenCount s) = \<lceil>real (length s) / 4\<rceil>"
  unfolding estimateTokenCount_def by linarith

lemma sumTokens_simps [simp]:
  "sumTokens [] = 0"
  "sumTokens (s # ss) = estimateTokenCount s + sumTokens ss"
  "sumTokens (xs @ ys) = sumTokens xs + sumTokens ys"
  by (simp_all add: sumTokens_def)

lemma overlapLoop_result:
  "overlapLoop ot xs acc cnt = (os, oc) \<Longrightarrow>
   \<exists>taken left. xs = taken @ left \<and> os = rev taken @ acc \<and> oc = cnt + sumTokens taken
     \<and> (taken \<noteq> [] \<longrightarrow> int oc \<le> ot)
     \<and> (left \<noteq> [] \<longrightarrow> int (oc + estimateTokenCount (hd left)) > ot)"
proof (induction xs arbitrary: acc cnt)
  case Nil
  then show ?case by simp
next
  case (Cons s earlier)
  show ?case
  proof (cases "int (cnt + estimateTokenCount s) \<le> ot")
    case True
    with Cons.prems
    have "overlapLoop ot earlier (s # acc) (cnt + estimateTokenCount s) = (os, oc)"
      by simp
    from Cons.IH[OF this] obtain taken left where
      t: "earlier = taken @ left" "os = rev taken @ s # acc"
         "oc = cnt + estimateTokenCount s + sumTokens taken"
         "taken \<noteq> [] \<longrightarrow> int oc \<le> ot"
         "left \<noteq> [] \<longrightarrow> int (oc + estimateTokenCount (hd left)) > ot"
      by blast
    have "int oc \<le> ot"
      using t(3,4) True by (cases "taken = []") simp_all
    with t show ?thesis
      by (intro exI[of _ "s # taken"] exI[of _ left]) simp
  next
    case False
    with Cons.prems have "os = acc" "oc = cnt" by simp_all
    with False show ?thesis
      by (intro exI[of _ "[]"] exI[of _ "s # earlier"]) simp
  qed
qed

lemma overlapOf_suffix:
  "\<exists>pre. g = pre @ overlapOf ot g
     \<and> snd (overlapLoop ot (rev g) [] 0) = sumTokens (overlapOf ot g)
     \<and> (overlapOf ot g \<noteq> [] \<longrightarrow> int (sumTokens (overlapOf ot g)) \<le> ot)
     \<and> (pre \<noteq> [] \<longrightarrow> int (sumTokens (overlapOf ot g) + estimateTokenCount (last pre)) > ot)"
proof -
  obtain os oc where r: "overlapLoop ot (rev g) [] 0 = (os, oc)"
    by (cases "overlapLoop ot (rev g) [] 0")
  from overlapLoop_result[OF r] obtain taken left where
    t: "rev g = taken @ left" "os = rev taken" "oc = sumTokens taken"
       "taken \<noteq> [] \<longrightarrow> int oc \<le> ot"
       "left \<noteq> [] \<longrightarrow> int (oc + estimateTokenCount (hd left)) > ot"
    by auto
  have g: "g = rev left @ rev taken"
    using t(1) by (metis rev_append rev_rev_ident)
  have s: "sumTokens (rev taken) = sumTokens taken"
    by (simp add: sumTokens_def rev_map[symmetric])
  show ?thesis
    using g t s r by (intro exI[of _ "rev left"]) (simp add: overlapOf_def last_rev)
qed

lemma counted_initialState: "counted initialState"
  by (simp add: counted_def initialState_def)

lemma saveChunk_fields:
  "chunks (saveChunk ot st) = chunks st @ [chunkOf (chunkIndex st, currentChunk st)\<lparr>tokenCount := currentTokenCount st\<rparr>]"
  "chunkIndex (saveChunk ot st) = chunkIndex st + 1"
  "currentChunk (saveChunk ot st) = overlapOf ot (currentChunk st)"
  "currentTokenCount (saveChunk ot st) = sumTokens (overlapOf ot (currentChunk st))"
  using overlapOf_suffix[of "currentChunk st" ot]
  by (auto simp: saveChunk_def chunkOf_def overlapOf_def split: prod.splits)

lemma chunkStep_fields:
  "currentChunk (chunkStep mt ot st s) =
     (if exceeds mt st s then overlapOf ot (currentChunk st) else currentChunk st) @ [s]"
  "counted st \<Longrightarrow> counted (chunkStep mt ot st s)"
  "chunks (chunkStep mt ot st s) =
     (if exceeds mt st s
      then chunks st @ [chunkOf (chunkIndex st, currentChunk st)\<lparr>tokenCount := currentTokenCount st\<rparr>]
      else chunks st)"
  "chunkIndex (chunkStep mt ot st s) = (if exceeds mt st s then chunkIndex st + 1 else chunkIndex st)"
  by (simp_all add: chunkStep_def Let_def saveChunk_fields counted_def)

lemma finish_foldl:
  "counted st \<Longrightarrow>
   finish (foldl (chunkStep mt ot) st ss) =
     chunks st @ map chunkOf (enumerate (chunkIndex st) (savedSentences mt ot st ss))"
proof (induction ss arbitrary: st)
  case Nil
  then show ?case
    by (simp add: finish_def chunkOf_def counted_def)
next
  case (Cons s rest)
  let ?st = "chunkStep mt ot st s"
  have "counted ?st"
    using Cons.prems by (rule chunkStep_fields(2))
  from Cons.IH[OF this] show ?case
    using Cons.prems by (simp add: chunkStep_fields(3,4) chunkOf_def counted_def)
qed

lemma chunkText_chunkOf:
  "chunkText t mt ot = map chunkOf (enumerate 0 (sentencesOfChunks t mt ot))"
  using finish_foldl[OF counted_initialState, of mt ot "splitIntoSentences t"]
  by (simp add: chunkText_def chunkSentences_def sentencesOfChunks_def initialState_def)

lemma savedSentences_head:
  "currentChunk st \<noteq> [] \<Longrightarrow>
   savedSentences mt ot st ss \<noteq> []
   \<and> (\<exists>more. hd (savedSentences mt ot st ss) = currentChunk st @ more)"
proof (induction ss arbitrary: st)
  case Nil
  then show ?case by simp
next
  case (Cons s rest)
  show ?case
  proof (cases "exceeds mt st s")
    case True
    then show ?thesis by simp
  next
    case False
    let ?st = "chunkStep mt ot st s"
    have c: "currentChunk ?st = currentChunk st @ [s]"
      using False by (simp add: chunkStep_fields(1))
    then have "currentChunk ?st \<noteq> []" by simp
    from Cons.IH[OF this] c False show ?thesis by auto
  qed
qed

lemma savedSentences_successively:
  "successively (overlaps ot) (savedSentences mt ot st ss)"
proof (induction ss arbitrary: st)
  case Nil
  then show ?case by simp
next
  case (Cons s rest)
  let ?st = "chunkStep mt ot st s"
  show ?case
  proof (cases "exceeds mt st s")
    case True
    then have c: "currentChunk ?st = overlapOf ot (currentChunk st) @ [s]"
      by (simp add: chunkStep_fields(1))
    then have "currentChunk ?st \<noteq> []" by simp
    from savedSentences_head[OF this, of mt ot rest] obtain more where
      h: "savedSentences mt ot ?st rest \<noteq> []"
         "hd (savedSentences mt ot ?st rest) = currentChunk ?st @ more"
      by blast
    have "overlaps ot (currentChunk st) (hd (savedSentences mt ot ?st rest))"
      unfolding overlaps_def h(2) c by (intro exI[of _ "[s] @ more"]) simp
    with Cons.IH[of ?st] True show ?thesis
      by (simp add: successively_Cons)
  next
    case False
    with Cons.IH[of ?st] show ?thesis by simp
  qed
qed

lemma successively_nth:
  "successively P xs \<Longrightarrow> Suc i < length xs \<Longrightarrow> P (xs ! i) (xs ! Suc i)"
proof (induction xs arbitrary: i)
  case Nil
  then show ?case by simp
next
  case (Cons x xs)
  then show ?case
    by (cases i; cases xs) (auto simp: successively_Cons)
qed

lemma chunkText_nth:
  assumes "i < length (sentencesOfChunks t mt ot)"
  shows "chunkText t mt ot ! i = chunkOf (i, sentencesOfChunks t mt ot ! i)"
  using assms by (simp add: chunkText_chunkOf nth_enumerate_eq)

lemma chunkText_length: "length (chunkText t mt ot) = length (sentencesOfChunks t mt ot)"
  by (simp add: chunkText_chunkOf)


lemma overlapOf_maximal:
  assumes "suffix ys g" "length (overlapOf ot g) < length ys"
  shows "int (sumTokens ys) > ot"
proof -
  from overlapOf_suffix[of g ot] obtain pre where
    p: "g = pre @ overlapOf ot g"
       "pre \<noteq> [] \<longrightarrow> int (sumTokens (overlapOf ot g) + estimateTokenCount (last pre)) > ot"
    by blast
  from assms(1) obtain zs where zs: "g = zs @ ys"
    by (auto simp: suffix_def)
  have "length g = length pre + length (overlapOf ot g)"
    using p(1) by (metis length_append)
  moreover have "length g = length zs + length ys"
    using zs by simp
  ultimately have l: "length zs < length pre"
    using assms(2) by simp
  have "pre @ overlapOf ot g = zs @ ys"
    using p(1) zs by simp
  with l obtain ws where ws: "pre = zs @ ws" "ys = ws @ overlapOf ot g" "ws \<noteq> []"
    by (auto simp: append_eq_append_conv2)
  then have pre: "pre \<noteq> []" and "last pre = last ws"
    by simp_all
  then have "estimateTokenCount (last pre) \<le> sumTokens ws"
    using ws(3) by (induction ws) (auto split: if_splits)
  with p(2) pre ws(2) show ?thesis
    by simp
qed

text \<open>
  C2. When \<open>chunkText\<close> has saved a chunk and a next chunk follows, the next chunk
  starts with the overlap of the saved one: a suffix of its sentences, whole sentences
  only, taken from the last sentence backward while the estimated token count stays at
  most \<open>overlapTokens\<close>. The walk stops at the first sentence that would exceed it, so
  every longer suffix exceeds \<open>overlapTokens\<close>. The texts of the two chunks are these
  sentence lists joined.
\<close>

theorem chunkText_overlap:
  assumes "Suc i < length (chunkText t mt ot)"
  shows "chunk_text (chunkText t mt ot ! i) = chunkTextOf (sentencesOfChunks t mt ot ! i)
    \<and> chunk_text (chunkText t mt ot ! Suc i) = chunkTextOf (sentencesOfChunks t mt ot ! Suc i)
    \<and> (let g = sentencesOfChunks t mt ot ! i; ov = overlapOf ot g
       in (\<exists>pre rest. g = pre @ ov
             \<and> sentencesOfChunks t mt ot ! Suc i = ov @ rest \<and> rest \<noteq> []
             \<and> (pre \<noteq> [] \<longrightarrow> int (sumTokens ov + estimateTokenCount (last pre)) > ot))
          \<and> (ov \<noteq> [] \<longrightarrow> int (sumTokens ov) \<le> ot)
          \<and> (\<forall>ys. suffix ys g \<and> length ov < length ys \<longrightarrow> int (sumTokens ys) > ot))"
proof -
  let ?gs = "sentencesOfChunks t mt ot"
  have len: "Suc i < length ?gs"
    using assms by (simp add: chunkText_length)
  have "successively (overlaps ot) ?gs"
    unfolding sentencesOfChunks_def by (rule savedSentences_successively)
  from successively_nth[OF this len] obtain rest where
    rest: "rest \<noteq> []" "?gs ! Suc i = overlapOf ot (?gs ! i) @ rest"
    by (auto simp: overlaps_def)
  from overlapOf_suffix[of "?gs ! i" ot] obtain pre where
    pre: "?gs ! i = pre @ overlapOf ot (?gs ! i)"
         "overlapOf ot (?gs ! i) \<noteq> [] \<longrightarrow> int (sumTokens (overlapOf ot (?gs ! i))) \<le> ot"
         "pre \<noteq> [] \<longrightarrow> int (sumTokens (overlapOf ot (?gs ! i)) + estimateTokenCount (last pre)) > ot"
    by blast
  have texts: "chunk_text (chunkText t mt ot ! i) = chunkTextOf (?gs ! i)"
      "chunk_text (chunkText t mt ot ! Suc i) = chunkTextOf (?gs ! Suc i)"
    using len by (simp_all add: chunkText_nth chunkOf_def)
  show ?thesis
    unfolding Let_def
    using texts rest pre overlapOf_maximal[of _ "?gs ! i" ot] by blast
qed


theorem chunkText_overlap_witness:
  "Suc 0 < length (chunkText (js ''aaaa. bbbb. cccc. d'') 2 1)
   \<and> sentencesOfChunks (js ''aaaa. bbbb. cccc. d'') 2 1 ! 0 = [js ''aaaa'', js ''bbbb'']
   \<and> overlapOf 1 [js ''aaaa'', js ''bbbb''] = [js ''bbbb'']
   \<and> sentencesOfChunks (js ''aaaa. bbbb. cccc. d'') 2 1 ! Suc 0 = [js ''bbbb'', js ''cccc'']
   \<and> chunk_text (chunkText (js ''aaaa. bbbb. cccc. d'') 2 1 ! Suc 0)
       = chunkTextOf (sentencesOfChunks (js ''aaaa. bbbb. cccc. d'') 2 1 ! Suc 0)"
proof -
  have l: "Suc 0 < length (chunkText (js ''aaaa. bbbb. cccc. d'') 2 1)"
    by code_simp
  have "sentencesOfChunks (js ''aaaa. bbbb. cccc. d'') 2 1 ! 0 = [js ''aaaa'', js ''bbbb'']"
    by code_simp
  moreover have "overlapOf 1 [js ''aaaa'', js ''bbbb''] = [js ''bbbb'']"
    by code_simp
  moreover have
    "sentencesOfChunks (js ''aaaa. bbbb. cccc. d'') 2 1 ! Suc 0 = [js ''bbbb'', js ''cccc'']"
    by code_simp
  ultimately show ?thesis
    using l chunkText_overlap[OF l] by blast
qed

text \<open>
  C3. The \<open>tokenCount\<close> of every chunk that \<open>chunkText\<close> returns is the sum of
  \<open>ceil(length / 4)\<close> over the sentences of the chunk, the overlap sentences carried
  over among them. It is not measured on the text of the chunk, which has the
  separators and the final period besides.
\<close>

theorem chunkText_tokenCount:
  "length (chunkText t mt ot) = length (sentencesOfChunks t mt ot)
   \<and> (\<forall>i < length (chunkText t mt ot).
         chunk_text (chunkText t mt ot ! i) = chunkTextOf (sentencesOfChunks t mt ot ! i)
         \<and> tokenCount (chunkText t mt ot ! i)
             = sum_list (map estimateTokenCount (sentencesOfChunks t mt ot ! i)))
   \<and> (\<forall>s. int (estimateTokenCount s) = \<lceil>real (length s) / 4\<rceil>)"
  by (simp add: chunkText_length chunkText_nth chunkOf_def sumTokens_def
      estimateTokenCount_ceiling)

theorem chunkText_tokenCount_witness:
  "0 < length (chunkText (js ''aaaa. bbbb. cccc. d'') 2 1)
   \<and> sentencesOfChunks (js ''aaaa. bbbb. cccc. d'') 2 1 ! 0 = [js ''aaaa'', js ''bbbb'']
   \<and> tokenCount (chunkText (js ''aaaa. bbbb. cccc. d'') 2 1 ! 0)
       = sum_list (map estimateTokenCount (sentencesOfChunks (js ''aaaa. bbbb. cccc. d'') 2 1 ! 0))
   \<and> tokenCount (chunkText (js ''aaaa. bbbb. cccc. d'') 2 1 ! 0) = 2
   \<and> chunk_text (chunkText (js ''aaaa. bbbb. cccc. d'') 2 1 ! 0) = js ''aaaa. bbbb.''
   \<and> estimateTokenCount (js ''aaaa. bbbb.'') = 3"
proof -
  have l: "0 < length (chunkText (js ''aaaa. bbbb. cccc. d'') 2 1)"
    by code_simp
  have "sentencesOfChunks (js ''aaaa. bbbb. cccc. d'') 2 1 ! 0 = [js ''aaaa'', js ''bbbb'']"
    by code_simp
  moreover have "tokenCount (chunkText (js ''aaaa. bbbb. cccc. d'') 2 1 ! 0) = 2"
    by code_simp
  moreover have "chunk_text (chunkText (js ''aaaa. bbbb. cccc. d'') 2 1 ! 0) = js ''aaaa. bbbb.''"
    by code_simp
  moreover have "estimateTokenCount (js ''aaaa. bbbb.'') = 3"
    by code_simp
  ultimately show ?thesis
    using l chunkText_tokenCount[of "js ''aaaa. bbbb. cccc. d''" 2 1] by blast
qed

section \<open>extractMetadata\<close>

lemma extractMetadata_charCount: "charCount (extractMetadata t) = length t"
  by (simp add: extractMetadata_def)

lemma extractMetadata_words:
  "wordCount (extractMetadata (js ''one two three four five'')) = 5"
  by code_simp

lemma splitRuns_no_empty:
  "s \<noteq> [] \<Longrightarrow> \<not> isWhiteSpace (hd s) \<Longrightarrow> \<not> isWhiteSpace (last s) \<Longrightarrow>
   [] \<notin> set (splitRuns isWhiteSpace s)"
proof (induction s rule: measure_induct_rule[of length])
  case (less s)
  let ?d = "dropWhile nonws s"
  show ?case
  proof (cases ?d)
    case Nil
    then have "splitRuns isWhiteSpace s = [s]"
      by (subst splitRuns.simps) (simp del: dropWhile_eq_Nil_conv)
    with less.prems show ?thesis by simp
  next
    case (Cons x rest)
    have x: "isWhiteSpace x"
      using Cons hd_dropWhile[of nonws s] by (force simp del: dropWhile_eq_Nil_conv)
    have s: "s = takeWhile nonws s @ x # rest"
      using Cons by (metis takeWhile_dropWhile_id)
    have tw: "takeWhile nonws s \<noteq> []"
      using less.prems by (cases s) simp_all
    have rest: "rest \<noteq> []"
    proof
      assume "rest = []"
      with s have "last s = x" by (metis last_snoc)
      with x less.prems show False by simp
    qed
    then have lr: "last rest = last s"
      using s by (metis last_ConsR last_appendR list.distinct(1))
    let ?s = "dropWhile isWhiteSpace rest"
    have ex: "\<exists>y\<in>set rest. \<not> isWhiteSpace y"
      using rest lr less.prems last_in_set by metis
    then have ne: "?s \<noteq> []" by simp
    have ls: "last ?s = last s"
      using ne lr by (metis last_appendR takeWhile_dropWhile_id)
    have "length ?s \<le> length rest"
      by (rule length_dropWhile_le)
    moreover have "length s = length (takeWhile nonws s) + Suc (length rest)"
      using s by (metis length_append length_Cons)
    ultimately have "length ?s < length s" by simp
    from less.IH[OF this ne hd_dropWhile[OF ne]] ls less.prems(3)
    have "[] \<notin> set (splitRuns isWhiteSpace ?s)" by simp
    moreover have "splitRuns isWhiteSpace s = takeWhile nonws s # splitRuns isWhiteSpace ?s"
      using Cons by (subst splitRuns.simps) (simp del: dropWhile_eq_Nil_conv)
    ultimately show ?thesis using tw by simp
  qed
qed

lemma extractMetadata_wordCount_trimmed:
  assumes "t \<noteq> []" "trimmed t"
  shows "wordCount (extractMetadata t) = length (wordsOf t)"
proof -
  have "[] \<notin> set (splitRuns isWhiteSpace t)"
    using assms by (intro splitRuns_no_empty) (simp_all add: trimmed_def)
  then have "wordsOf t = splitRuns isWhiteSpace t"
    unfolding wordsOf_def by (metis (mono_tags, lifting) filter_True)
  then show ?thesis
    by (simp add: extractMetadata_def)
qed

text \<open>
  C8. \<open>charCount\<close> is the length of the string, but \<open>wordCount\<close> is the number of
  pieces that \<open>split(/\s+/)\<close> returns, and an empty piece counts: the empty string has
  one piece and no word, and white space at the start or the end of the text adds a
  piece each. On a text that is not empty and has no white space at either end the two
  agree (\<open>extractMetadata_wordCount_trimmed\<close>).
\<close>

theorem extractMetadata_empty:
  "wordCount (extractMetadata []) = 1
   \<and> wordsOf [] = []
   \<and> wordCount (extractMetadata (js '' a '')) = 3
   \<and> wordsOf (js '' a '') = [js ''a'']"
  by code_simp

section \<open>The vector store\<close>

lemma qdrant_upsert_points:
  assumes "qdrant_upsert col p = Inr col'"
  shows "p \<in> set (points col')"
    and "q \<in> set (points col) \<Longrightarrow> point_id q \<noteq> point_id p \<Longrightarrow> q \<in> set (points col')"
    and "dimension col' = dimension col"
    and "length (vector p) = dimension col"
  using assms
  by (auto simp: qdrant_upsert_def list_ex_iff split: if_splits)

lemma qdrant_upsert_ok:
  "length (vector p) = dimension col \<Longrightarrow> \<exists>col'. qdrant_upsert col p = Inr col'"
  by (simp add: qdrant_upsert_def)

lemma qdrant_search_results:
  assumes "qdrant_search sim col v uid limit threshold = Inr rs"
  shows "length rs \<le> limit"
    and "r \<in> set rs \<Longrightarrow> score r \<ge> threshold"
    and "r \<in> set rs \<Longrightarrow>
           \<exists>p\<in>set (points col). userId (payload p) = uid \<and> scored_id r = point_id p
             \<and> scored_payload r = payload p \<and> score r = sim v (vector p)"
proof -
  let ?cands = "map (\<lambda>p. \<lparr>scored_id = point_id p, score = sim v (vector p), scored_payload = payload p\<rparr>)
                  (filter (\<lambda>p. userId (payload p) = uid) (points col))"
  from assms have rs: "rs = take limit (sort_key (\<lambda>r. - score r) (filter (\<lambda>r. score r \<ge> threshold) ?cands))"
    by (simp add: qdrant_search_def split: if_splits)
  show "length rs \<le> limit"
    by (simp add: rs)
  have sub: "set rs \<subseteq> set (filter (\<lambda>r. score r \<ge> threshold) ?cands)"
    unfolding rs using set_take_subset[of limit "sort_key (\<lambda>r. - score r) (filter (\<lambda>r. score r \<ge> threshold) ?cands)"]
    by simp
  show "r \<in> set rs \<Longrightarrow> score r \<ge> threshold"
    using sub by auto
  show "r \<in> set rs \<Longrightarrow>
           \<exists>p\<in>set (points col). userId (payload p) = uid \<and> scored_id r = point_id p
             \<and> scored_payload r = payload p \<and> score r = sim v (vector p)"
  proof -
    assume "r \<in> set rs"
    with sub obtain p where "p \<in> set (points col)" "userId (payload p) = uid"
      "r = \<lparr>scored_id = point_id p, score = sim v (vector p), scored_payload = payload p\<rparr>"
      by auto
    then show ?thesis
      by (intro bexI[of _ p]) simp_all
  qed
qed

section \<open>searchMemories\<close>

lemma generateEmbedding_collection:
  "collection (snd (generateEmbedding cfg sv w t)) = collection w"
  "uuidsDrawn (snd (generateEmbedding cfg sv w t)) = uuidsDrawn w"
  "clock (snd (generateEmbedding cfg sv w t)) = clock w"
  "embeddingCalls (snd (generateEmbedding cfg sv w t)) = embeddingCalls w + 1"
  by (simp_all add: generateEmbedding_def)

lemma demo_search_one:
  "searchMemories demoConfig (demoServices 1) demoWorld (js ''alice'') (js ''tea'') (Some 1) None
     = (Inr [demoResult 2 (9 / 10) ''likes tea''], demoWorld\<lparr>embeddingCalls := 1\<rparr>)"
  by (simp add: searchMemories_def generateEmbedding_def VectorStore_search_def qdrant_search_def
      demoConfig_def demoServices_def demoWorld_def demoPoint_def demoResult_def js_def)

lemma demo_search_five:
  "searchMemories demoConfig (demoServices 1) demoWorld (js ''alice'') (js ''tea'') (Some 5) None
     = (Inr [demoResult 2 (9 / 10) ''likes tea'', demoResult 0 (7 / 10) ''likes coffee''],
        demoWorld\<lparr>embeddingCalls := 1\<rparr>)"
  by (simp add: searchMemories_def generateEmbedding_def VectorStore_search_def qdrant_search_def
      demoConfig_def demoServices_def demoWorld_def demoPoint_def demoResult_def js_def)

lemma demo_search_none:
  "searchMemories demoConfig (demoServices 1) demoWorld (js ''carol'') (js ''tea'') (Some 5) None
     = (Inr [], demoWorld\<lparr>embeddingCalls := 1\<rparr>)"
  by (simp add: searchMemories_def generateEmbedding_def VectorStore_search_def qdrant_search_def
      demoConfig_def demoServices_def demoWorld_def demoPoint_def demoResult_def js_def)

text \<open>
  C7. Whatever the store holds, a search that returns has at most \<open>limit\<close> results
  (5 when no limit is given); every result has a score of at least \<open>scoreThreshold\<close>
  (0.5 when none is given) and is a stored point whose \<open>userId\<close> is the one asked for.
  \<open>searchMemories\<close> hands the three parameters to the vector store as they are; what
  the store does with them is the modelled part.
\<close>

theorem searchMemories_bounds:
  assumes "searchMemories cfg sv w uid query limit scoreThreshold = (Inr results, w')"
  shows "length results \<le> (case limit of None \<Rightarrow> 5 | Some l \<Rightarrow> l)
    \<and> (\<forall>r\<in>set results.
          result_score r \<ge> (case scoreThreshold of None \<Rightarrow> 0.5 | Some t \<Rightarrow> t)
          \<and> (\<exists>p\<in>set (points (collection w)).
                 point_id p = result_id r \<and> userId (payload p) = uid
                 \<and> payload_text (payload p) = result_text r))"
proof -
  let ?l = "case limit of None \<Rightarrow> 5 | Some l \<Rightarrow> l"
  let ?t = "case scoreThreshold of None \<Rightarrow> 0.5 | Some t \<Rightarrow> t"
  from assms obtain v rs where
    s: "qdrant_search (similarity sv) (collection w) v uid ?l ?t = Inr rs"
    and r: "results = map (\<lambda>result. \<lparr>result_id = scored_id result,
                              result_score = score result,
                              result_text = payload_text (scored_payload result),
                              result_timestamp = timestamp (scored_payload result),
                              result_metadata = payload_metadata (scored_payload result)\<rparr>) rs"
    by (auto simp: searchMemories_def VectorStore_search_def generateEmbedding_def
        split: prod.splits sum.splits option.splits)
  show ?thesis
    unfolding r using qdrant_search_results[OF s] by fastforce
qed


theorem searchMemories_bounds_witness:
  "fst (searchMemories demoConfig (demoServices 1) demoWorld (js ''alice'') (js ''tea'') (Some 1) None)
     = Inr [demoResult 2 (9 / 10) ''likes tea'']
   \<and> length [demoResult 2 (9 / 10) ''likes tea''] \<le> 1
   \<and> result_score (demoResult 2 (9 / 10) ''likes tea'') \<ge> 0.5
   \<and> (\<exists>p\<in>set (points (collection demoWorld)).
         point_id p = result_id (demoResult 2 (9 / 10) ''likes tea'')
         \<and> userId (payload p) = js ''alice''
         \<and> payload_text (payload p) = result_text (demoResult 2 (9 / 10) ''likes tea''))"
  using searchMemories_bounds[OF demo_search_one] demo_search_one by simp

section \<open>addMemory\<close>

lemma addMemoryLoop_step:
  "addMemoryLoop cfg sv uid md n (chunk # rest) ids w =
     (case embeddings sv (embeddingCalls w) (embeddingModel cfg) (chunk_text chunk) of
        None \<Rightarrow> (Inl (Error (embeddingFailure (embeddingModel cfg))),
                  w\<lparr>uuidsDrawn := uuidsDrawn w + 1, embeddingCalls := embeddingCalls w + 1\<rparr>)
      | Some v \<Rightarrow>
          (case qdrant_upsert (collection w)
                  \<lparr>point_id = UUID (uuidsDrawn w), vector = v,
                   payload = chunkPayload uid md n (clock w) chunk\<rparr> of
             Inl e \<Rightarrow> (Inl e, w\<lparr>uuidsDrawn := uuidsDrawn w + 1, embeddingCalls := embeddingCalls w + 1\<rparr>)
           | Inr col \<Rightarrow>
               addMemoryLoop cfg sv uid md n rest (ids @ [UUID (uuidsDrawn w)])
                 (w\<lparr>uuidsDrawn := uuidsDrawn w + 1, embeddingCalls := embeddingCalls w + 1,
                    collection := col\<rparr>)))"
  by (simp add: randomUUID_def generateEmbedding_def VectorStore_addMemory_def
      split: option.splits sum.splits)

lemma addMemoryLoop_keeps:
  "p \<in> set (points (collection w)) \<Longrightarrow> point_id p = UUID m \<Longrightarrow> m < uuidsDrawn w \<Longrightarrow>
   p \<in> set (points (collection (snd (addMemoryLoop cfg sv uid md n cs ids w))))"
proof (induction cs arbitrary: ids w)
  case Nil
  then show ?case by simp
next
  case (Cons chunk rest)
  show ?case
  proof (cases "embeddings sv (embeddingCalls w) (embeddingModel cfg) (chunk_text chunk)")
    case None
    with Cons.prems show ?thesis
      by (simp add: addMemoryLoop_step del: addMemoryLoop.simps)
  next
    case (Some v)
    let ?p = "\<lparr>point_id = UUID (uuidsDrawn w), vector = v,
               payload = chunkPayload uid md n (clock w) chunk\<rparr>"
    show ?thesis
    proof (cases "qdrant_upsert (collection w) ?p")
      case (Inl e)
      with Some Cons.prems show ?thesis
        by (simp add: addMemoryLoop_step del: addMemoryLoop.simps)
    next
      case (Inr col)
      let ?w = "w\<lparr>uuidsDrawn := uuidsDrawn w + 1, embeddingCalls := embeddingCalls w + 1,
                  collection := col\<rparr>"
      have "p \<in> set (points col)"
        using qdrant_upsert_points(2)[OF Inr, of p] Cons.prems by simp
      then have "p \<in> set (points (collection (snd (addMemoryLoop cfg sv uid md n rest
                   (ids @ [UUID (uuidsDrawn w)]) ?w))))"
        using Cons.prems by (intro Cons.IH) simp_all
      with Some Inr show ?thesis
        by (simp add: addMemoryLoop_step del: addMemoryLoop.simps)
    qed
  qed
qed

lemma addMemoryLoop_prefix:
  assumes "i \<le> length cs"
    and "\<forall>j<i. \<exists>v. embeddings sv (embeddingCalls w + j) (embeddingModel cfg) (chunk_text (cs ! j)) = Some v
               \<and> length v = dimension (collection w)"
  shows "(\<forall>j<i. \<exists>p\<in>set (points (collection (snd (addMemoryLoop cfg sv uid md n cs ids w)))).
            point_id p = UUID (uuidsDrawn w + j)
            \<and> payload p = chunkPayload uid md n (clock w) (cs ! j))
    \<and> (i = length cs \<longrightarrow>
          fst (addMemoryLoop cfg sv uid md n cs ids w)
            = Inr (ids @ map (\<lambda>j. UUID (uuidsDrawn w + j)) [0..<i]))
    \<and> (i < length cs
          \<and> embeddings sv (embeddingCalls w + i) (embeddingModel cfg) (chunk_text (cs ! i)) = None \<longrightarrow>
          fst (addMemoryLoop cfg sv uid md n cs ids w)
            = Inl (Error (embeddingFailure (embeddingModel cfg))))"
  using assms
proof (induction cs arbitrary: i ids w)
  case Nil
  then show ?case by simp
next
  case (Cons chunk rest)
  show ?case
  proof (cases i)
    case 0
    then show ?thesis
      by (simp add: addMemoryLoop_step del: addMemoryLoop.simps)
  next
    case (Suc i')
    from Cons.prems(2) Suc obtain v where
      v: "embeddings sv (embeddingCalls w) (embeddingModel cfg) (chunk_text chunk) = Some v"
         "length v = dimension (collection w)"
      by force
    let ?p = "\<lparr>point_id = UUID (uuidsDrawn w), vector = v,
               payload = chunkPayload uid md n (clock w) chunk\<rparr>"
    from qdrant_upsert_ok[of ?p "collection w"] v(2) obtain col where
      col: "qdrant_upsert (collection w) ?p = Inr col"
      by auto
    let ?w = "w\<lparr>uuidsDrawn := uuidsDrawn w + 1, embeddingCalls := embeddingCalls w + 1,
                collection := col\<rparr>"
    let ?ids = "ids @ [UUID (uuidsDrawn w)]"
    have step: "addMemoryLoop cfg sv uid md n (chunk # rest) ids w
                  = addMemoryLoop cfg sv uid md n rest ?ids ?w"
      using v col by (simp add: addMemoryLoop_step del: addMemoryLoop.simps)
    have i': "i' \<le> length rest"
      using Cons.prems(1) Suc by simp
    have emb: "\<forall>j<i'. \<exists>v. embeddings sv (embeddingCalls ?w + j) (embeddingModel cfg)
                              (chunk_text (rest ! j)) = Some v
                      \<and> length v = dimension (collection ?w)"
    proof (intro allI impI)
      fix j assume "j < i'"
      then have "Suc j < i" using Suc by simp
      with Cons.prems(2) show "\<exists>v. embeddings sv (embeddingCalls ?w + j) (embeddingModel cfg)
                              (chunk_text (rest ! j)) = Some v
                      \<and> length v = dimension (collection ?w)"
        using qdrant_upsert_points(3)[OF col] by force
    qed
    note ih = Cons.IH[OF i' emb, of ?ids]
    have first: "?p \<in> set (points (collection (snd (addMemoryLoop cfg sv uid md n rest ?ids ?w))))"
      using qdrant_upsert_points(1)[OF col]
      by (intro addMemoryLoop_keeps[where m = "uuidsDrawn w"]) simp_all
    have pts: "\<exists>p\<in>set (points (collection (snd (addMemoryLoop cfg sv uid md n rest ?ids ?w)))).
            point_id p = UUID (uuidsDrawn w + j)
            \<and> payload p = chunkPayload uid md n (clock w) ((chunk # rest) ! j)" if "j < i" for j
    proof (cases j)
      case 0
      with first show ?thesis by (intro bexI[of _ ?p]) simp_all
    next
      case (Suc j')
      with that \<open>i = Suc i'\<close> have "j' < i'" by simp
      with ih Suc show ?thesis by simp
    qed
    have A: "\<forall>j<i. \<exists>p\<in>set (points (collection (snd (addMemoryLoop cfg sv uid md n rest ?ids ?w)))).
            point_id p = UUID (uuidsDrawn w + j)
            \<and> payload p = chunkPayload uid md n (clock w) ((chunk # rest) ! j)"
      using pts by blast
    have ids: "?ids @ map (\<lambda>j. UUID (uuidsDrawn ?w + j)) [0..<i']
                 = ids @ map (\<lambda>j. UUID (uuidsDrawn w + j)) [0..<i]"
      unfolding Suc by (simp add: map_upt_Suc del: upt_Suc)
    have B: "i = length (chunk # rest) \<longrightarrow>
          fst (addMemoryLoop cfg sv uid md n rest ?ids ?w)
            = Inr (ids @ map (\<lambda>j. UUID (uuidsDrawn w + j)) [0..<i])"
      using ih Suc unfolding ids[symmetric] by simp
    have C: "i < length (chunk # rest)
          \<and> embeddings sv (embeddingCalls w + i) (embeddingModel cfg)
                (chunk_text ((chunk # rest) ! i)) = None \<longrightarrow>
          fst (addMemoryLoop cfg sv uid md n rest ?ids ?w)
            = Inl (Error (embeddingFailure (embeddingModel cfg)))"
      using ih Suc by simp
    show ?thesis
      unfolding step using A B C by blast
  qed
qed


lemma chunkMetadata_lookup:
  "chunkMetadata md chunk n k =
     (if k = js ''totalChunks'' then Some (JNum (real n))
      else if k = js ''chunkIndex'' then Some (JNum (real (index chunk)))
      else if k = js ''language'' then Some (JStr (language (extractMetadata (chunk_text chunk))))
      else if k = js ''hasEmail'' then Some (JBool (hasEmail (extractMetadata (chunk_text chunk))))
      else if k = js ''hasUrl'' then Some (JBool (hasUrl (extractMetadata (chunk_text chunk))))
      else if k = js ''charCount'' then Some (JNum (real (charCount (extractMetadata (chunk_text chunk)))))
      else if k = js ''wordCount'' then Some (JNum (real (wordCount (extractMetadata (chunk_text chunk)))))
      else md k)"
  by (simp add: chunkMetadata_def metadataObject_def map_add_def)

lemma derivedKeys_distinct: "distinct derivedKeys"
  by (simp add: derivedKeys_def js_def)

lemma chunkMetadata_dom: "dom (chunkMetadata md chunk n) = dom md \<union> set derivedKeys"
  by (auto simp: chunkMetadata_lookup dom_def derivedKeys_def split: if_splits)

lemma chunkMetadata_caller: "k \<notin> set derivedKeys \<Longrightarrow> chunkMetadata md chunk n k = md k"
  by (simp add: chunkMetadata_lookup derivedKeys_def)

lemma chunkMetadata_derived:
  "chunkMetadata md chunk n (js ''wordCount'')
     = Some (JNum (real (wordCount (extractMetadata (chunk_text chunk)))))"
  "chunkMetadata md chunk n (js ''charCount'')
     = Some (JNum (real (charCount (extractMetadata (chunk_text chunk)))))"
  "chunkMetadata md chunk n (js ''hasUrl'')
     = Some (JBool (hasUrl (extractMetadata (chunk_text chunk))))"
  "chunkMetadata md chunk n (js ''hasEmail'')
     = Some (JBool (hasEmail (extractMetadata (chunk_text chunk))))"
  "chunkMetadata md chunk n (js ''language'') = Some (JStr (js ''en''))"
  "chunkMetadata md chunk n (js ''chunkIndex'') = Some (JNum (real (index chunk)))"
  "chunkMetadata md chunk n (js ''totalChunks'') = Some (JNum (real n))"
  using derivedKeys_distinct
  by (simp_all add: chunkMetadata_lookup derivedKeys_def extractMetadata_def)

lemma chunkText_index: "j < length (chunkText t mt ot) \<Longrightarrow> index (chunkText t mt ot ! j) = j"
  by (simp add: chunkText_length chunkText_nth chunkOf_def)

lemma demo_chunks:
  "length (chunkText (normalizeText (js ''aaaa. bbbb. cccc. d'')) (maxChunkTokens demoConfig)
             (configOverlapTokens demoConfig)) = 3"
  "chunk_text (chunkText (normalizeText (js ''aaaa. bbbb. cccc. d'')) (maxChunkTokens demoConfig)
             (configOverlapTokens demoConfig) ! 0) = js ''aaaa. bbbb.''"
  "chunk_text (chunkText (normalizeText (js ''aaaa. bbbb. cccc. d'')) (maxChunkTokens demoConfig)
             (configOverlapTokens demoConfig) ! 1) = js ''bbbb. cccc.''"
  "wordCount (extractMetadata (js ''bbbb. cccc.'')) = 2"
  by code_simp+

lemma demo_embeddings:
  "\<forall>j<k. \<exists>v. embeddings (demoServices k) (embeddingCalls demoWorld + j) m (t j) = Some v
           \<and> length v = dimension (collection demoWorld)"
  "embeddings (demoServices k) (embeddingCalls demoWorld + k) m t' = None"
  by (simp_all add: demoServices_def demoWorld_def)

text \<open>
  C4. The metadata stored with a chunk has the keys of the caller and the derived keys.
  Under a derived key (those of \<open>extractMetadata\<close>, \<open>chunkIndex\<close> and
  \<open>totalChunks\<close>) stands the derived value, whatever the caller has given under it;
  under every other key stands the value of the caller. This is stated for each chunk
  that the loop of \<open>addMemory\<close> writes: the chunks before the first one whose
  embedding fails.
\<close>

theorem addMemory_metadata:
  assumes "cs = chunkText (normalizeText content) (maxChunkTokens cfg) (configOverlapTokens cfg)"
    and "md = (case mdOpt of None \<Rightarrow> Map.empty | Some m \<Rightarrow> m)"
    and "i \<le> length cs"
    and "\<forall>j<i. \<exists>v. embeddings sv (embeddingCalls w + j) (embeddingModel cfg) (chunk_text (cs ! j)) = Some v
               \<and> length v = dimension (collection w)"
    and "j < i"
  shows "\<exists>p\<in>set (points (collection (snd (addMemory cfg sv w uid content mdOpt)))).
           point_id p = UUID (uuidsDrawn w + j)
           \<and> payload_text (payload p) = chunk_text (cs ! j)
           \<and> (\<exists>m. payload_metadata (payload p) = Some m
                \<and> dom m = dom md \<union> set derivedKeys
                \<and> (\<forall>k. k \<notin> set derivedKeys \<longrightarrow> m k = md k)
                \<and> m (js ''wordCount'')
                    = Some (JNum (real (wordCount (extractMetadata (chunk_text (cs ! j))))))
                \<and> m (js ''charCount'')
                    = Some (JNum (real (charCount (extractMetadata (chunk_text (cs ! j))))))
                \<and> m (js ''hasUrl'') = Some (JBool (hasUrl (extractMetadata (chunk_text (cs ! j)))))
                \<and> m (js ''hasEmail'') = Some (JBool (hasEmail (extractMetadata (chunk_text (cs ! j)))))
                \<and> m (js ''language'') = Some (JStr (js ''en''))
                \<and> m (js ''chunkIndex'') = Some (JNum (real j))
                \<and> m (js ''totalChunks'') = Some (JNum (real (length cs))))"
proof -
  have run: "addMemory cfg sv w uid content mdOpt = addMemoryLoop cfg sv uid md (length cs) cs [] w"
    by (simp add: addMemory_def assms(1,2) Let_def)
  from addMemoryLoop_prefix[OF assms(3,4), of uid md "length cs" "[]"] assms(5)
  obtain p where p: "p \<in> set (points (collection (snd (addMemoryLoop cfg sv uid md (length cs) cs [] w))))"
      "point_id p = UUID (uuidsDrawn w + j)"
      "payload p = chunkPayload uid md (length cs) (clock w) (cs ! j)"
    by blast
  have idx: "index (cs ! j) = j"
    using assms(1,3,5) by (simp add: chunkText_index)
  show ?thesis
    unfolding run
  proof (intro bexI[of _ p] conjI exI[of _ "chunkMetadata md (cs ! j) (length cs)"])
    show "payload_metadata (payload p) = Some (chunkMetadata md (cs ! j) (length cs))"
      by (simp add: p(3) chunkPayload_def)
    show "payload_text (payload p) = chunk_text (cs ! j)"
      by (simp add: p(3) chunkPayload_def)
    show "\<forall>k. k \<notin> set derivedKeys \<longrightarrow> chunkMetadata md (cs ! j) (length cs) k = md k"
      by (simp add: chunkMetadata_caller)
  qed (simp_all add: p chunkMetadata_dom chunkMetadata_derived idx)
qed

theorem addMemory_metadata_witness:
  "\<exists>p\<in>set (points (collection (snd (addMemory demoConfig (demoServices 3) demoWorld (js ''alice'')
                                      (js ''aaaa. bbbb. cccc. d'') (Some demoMetadata))))).
     point_id p = UUID 5
     \<and> payload_text (payload p) = js ''bbbb. cccc.''
     \<and> (\<exists>m. payload_metadata (payload p) = Some m
          \<and> demoMetadata (js ''wordCount'') = Some (JNum 99)
          \<and> m (js ''wordCount'') = Some (JNum 2)
          \<and> m (js ''type'') = Some (JStr (js ''note''))
          \<and> m (js ''chunkIndex'') = Some (JNum 1)
          \<and> m (js ''totalChunks'') = Some (JNum 3))"
proof -
  let ?cs = "chunkText (normalizeText (js ''aaaa. bbbb. cccc. d'')) (maxChunkTokens demoConfig)
               (configOverlapTokens demoConfig)"
  have i: "3 \<le> length ?cs"
    by (simp add: demo_chunks)
  have e: "\<forall>j<3. \<exists>v. embeddings (demoServices 3) (embeddingCalls demoWorld + j)
                        (embeddingModel demoConfig) (chunk_text (?cs ! j)) = Some v
                 \<and> length v = dimension (collection demoWorld)"
    by (rule demo_embeddings)
  have j: "(1::nat) < 3"
    by simp
  have md: "demoMetadata = (case Some demoMetadata of None \<Rightarrow> Map.empty | Some m \<Rightarrow> m)"
    by simp
  have t: "js ''type'' \<notin> set derivedKeys"
    by (simp add: derivedKeys_def js_def)
  have d: "demoMetadata (js ''type'') = Some (JStr (js ''note''))"
      "demoMetadata (js ''wordCount'') = Some (JNum 99)"
    by (simp_all add: demoMetadata_def js_def)
  have u: "uuidsDrawn demoWorld + 1 = 5"
    by (simp add: demoWorld_def)
  from addMemory_metadata[OF refl md i e j, of "js ''alice''"]
  show ?thesis
    unfolding u demo_chunks using t d by fastforce
qed

text \<open>
  C5. When the embedding of chunk \<open>i\<close> fails, after the chunks before it have been
  embedded and written, \<open>addMemory\<close> fails with the message that names the embedding
  model of the configuration, returns no identifiers, and the \<open>i\<close> chunks written
  before are in the store.
\<close>

theorem addMemory_embedding_failure:
  assumes "cs = chunkText (normalizeText content) (maxChunkTokens cfg) (configOverlapTokens cfg)"
    and "i < length cs"
    and "\<forall>j<i. \<exists>v. embeddings sv (embeddingCalls w + j) (embeddingModel cfg) (chunk_text (cs ! j)) = Some v
               \<and> length v = dimension (collection w)"
    and "embeddings sv (embeddingCalls w + i) (embeddingModel cfg) (chunk_text (cs ! i)) = None"
  shows "fst (addMemory cfg sv w uid content mdOpt)
           = Inl (Error (js ''Failed to generate embedding. Is Ollama running with ''
                           @ embeddingModel cfg @ js '' model?''))
    \<and> (\<forall>j<i. \<exists>p\<in>set (points (collection (snd (addMemory cfg sv w uid content mdOpt)))).
            point_id p = UUID (uuidsDrawn w + j)
            \<and> payload_text (payload p) = chunk_text (cs ! j)
            \<and> userId (payload p) = uid)"
proof -
  let ?md = "case mdOpt of None \<Rightarrow> Map.empty | Some m \<Rightarrow> m"
  have run: "addMemory cfg sv w uid content mdOpt = addMemoryLoop cfg sv uid ?md (length cs) cs [] w"
    by (simp add: addMemory_def assms(1) Let_def)
  have le: "i \<le> length cs"
    using assms(2) by simp
  note loop = addMemoryLoop_prefix[OF le assms(3), of uid ?md "length cs" "[]"]
  have "fst (addMemoryLoop cfg sv uid ?md (length cs) cs [] w)
          = Inl (Error (embeddingFailure (embeddingModel cfg)))"
    using loop assms(2,4) by blast
  moreover have "\<exists>p\<in>set (points (collection (snd (addMemoryLoop cfg sv uid ?md (length cs) cs [] w)))).
            point_id p = UUID (uuidsDrawn w + j)
            \<and> payload_text (payload p) = chunk_text (cs ! j)
            \<and> userId (payload p) = uid" if "j < i" for j
  proof -
    from loop that obtain p where
      "p \<in> set (points (collection (snd (addMemoryLoop cfg sv uid ?md (length cs) cs [] w))))"
      "point_id p = UUID (uuidsDrawn w + j)"
      "payload p = chunkPayload uid ?md (length cs) (clock w) (cs ! j)"
      by blast
    then show ?thesis
      by (intro bexI[of _ p]) (simp_all add: chunkPayload_def)
  qed
  ultimately show ?thesis
    unfolding run by (simp add: embeddingFailure_def)
qed


theorem addMemory_embedding_failure_witness:
  "fst (addMemory demoConfig (demoServices 1) demoWorld (js ''alice'') (js ''aaaa. bbbb. cccc. d'') None)
     = Inl (Error (js ''Failed to generate embedding. Is Ollama running with nomic-embed-text model?''))
   \<and> (\<exists>p\<in>set (points (collection (snd (addMemory demoConfig (demoServices 1) demoWorld (js ''alice'')
                                           (js ''aaaa. bbbb. cccc. d'') None)))).
         point_id p = UUID 4 \<and> payload_text (payload p) = js ''aaaa. bbbb.''
         \<and> userId (payload p) = js ''alice'')"
proof -
  let ?cs = "chunkText (normalizeText (js ''aaaa. bbbb. cccc. d'')) (maxChunkTokens demoConfig)
               (configOverlapTokens demoConfig)"
  have i: "1 < length ?cs"
    by (simp add: demo_chunks)
  have e: "\<forall>j<1. \<exists>v. embeddings (demoServices 1) (embeddingCalls demoWorld + j)
                        (embeddingModel demoConfig) (chunk_text (?cs ! j)) = Some v
                 \<and> length v = dimension (collection demoWorld)"
    by (rule demo_embeddings)
  have f: "embeddings (demoServices 1) (embeddingCalls demoWorld + 1)
             (embeddingModel demoConfig) (chunk_text (?cs ! 1)) = None"
    by (rule demo_embeddings)
  have u: "uuidsDrawn demoWorld + 0 = 4"
    by (simp add: demoWorld_def)
  have m: "js ''Failed to generate embedding. Is Ollama running with ''
             @ embeddingModel demoConfig @ js '' model?''
           = js ''Failed to generate embedding. Is Ollama running with nomic-embed-text model?''"
    by (simp add: demoConfig_def js_def)
  from addMemory_embedding_failure[OF refl i e f, of "js ''alice''" None]
  show ?thesis
    unfolding m using u demo_chunks(2) by (metis less_numeral_extra(1))
qed


section \<open>chat\<close>

lemma chatContext_disabled:
  "chatContext cfg sv w uid message sp False n = (Inr sp, w)"
  by (simp add: chatContext_def)

lemma chatContext_enabled:
  "searchMemories cfg sv w uid message (Some n) None = (Inr memories, w1) \<Longrightarrow>
   chatContext cfg sv w uid message sp True n
     = (Inr (if memories = [] then sp else sp @ contextBlock sv memories), w1)"
  by (simp add: chatContext_def)

lemma chat_completes:
  assumes "chatContext cfg sv w uid message
             (case systemPromptOpt of None \<Rightarrow> defaultSystemPrompt | Some p \<Rightarrow> p)
             (case includeOpt of None \<Rightarrow> True | Some b \<Rightarrow> b)
             (case maxOpt of None \<Rightarrow> 5 | Some n \<Rightarrow> n) = (Inr contextPrompt, w1)"
    and "chatCompletion sv (chatModel cfg) [(js ''system'', contextPrompt), (js ''user'', message)]
           = Some content"
  shows "chat cfg sv w uid message systemPromptOpt includeOpt maxOpt
           = (Inr \<lparr>response = content,
                   memoriesUsed = (if (case includeOpt of None \<Rightarrow> True | Some b \<Rightarrow> b)
                                   then (case maxOpt of None \<Rightarrow> 5 | Some n \<Rightarrow> n) else 0)\<rparr>, w1)"
  unfolding chat_def Let_def assms(1) using assms(2) by simp

lemma chat_returns:
  assumes "chat cfg sv w uid message systemPromptOpt includeOpt maxOpt = (Inr r, w')"
  shows "memoriesUsed r = (if (case includeOpt of None \<Rightarrow> True | Some b \<Rightarrow> b)
                           then (case maxOpt of None \<Rightarrow> 5 | Some n \<Rightarrow> n) else 0)"
proof -
  obtain c w1 where c: "chatContext cfg sv w uid message
             (case systemPromptOpt of None \<Rightarrow> defaultSystemPrompt | Some p \<Rightarrow> p)
             (case includeOpt of None \<Rightarrow> True | Some b \<Rightarrow> b)
             (case maxOpt of None \<Rightarrow> 5 | Some n \<Rightarrow> n) = (c, w1)"
    by (cases "chatContext cfg sv w uid message
             (case systemPromptOpt of None \<Rightarrow> defaultSystemPrompt | Some p \<Rightarrow> p)
             (case includeOpt of None \<Rightarrow> True | Some b \<Rightarrow> b)
             (case maxOpt of None \<Rightarrow> 5 | Some n \<Rightarrow> n)")
  from assms show ?thesis
    unfolding chat_def Let_def c
    by (cases c; cases "chatCompletion sv (chatModel cfg) [(js ''system'', projr c), (js ''user'', message)]")
       auto
qed

text \<open>
  C6. With the memory context enabled, a search that has found memories and a chat
  service that answers, \<open>chat\<close> returns \<open>maxContextMemories\<close> (5 when none is
  given) as \<open>memoriesUsed\<close>, however many memories the search has found; with the
  context disabled it returns 0. In every case a call that returns reports
  \<open>maxContextMemories\<close> or 0, by \<open>includeMemoryContext\<close> alone.
\<close>

theorem chat_memoriesUsed:
  "(includeOpt \<noteq> Some False
      \<and> searchMemories cfg sv w uid message (Some (case maxOpt of None \<Rightarrow> 5 | Some n \<Rightarrow> n)) None
          = (Inr memories, w1)
      \<and> memories \<noteq> []
      \<and> chatCompletion sv (chatModel cfg)
          [(js ''system'',
            (case systemPromptOpt of None \<Rightarrow> defaultSystemPrompt | Some p \<Rightarrow> p)
              @ contextBlock sv memories),
           (js ''user'', message)] = Some content
      \<longrightarrow> chat cfg sv w uid message systemPromptOpt includeOpt maxOpt
            = (Inr \<lparr>response = content,
                    memoriesUsed = (case maxOpt of None \<Rightarrow> 5 | Some n \<Rightarrow> n)\<rparr>, w1))
   \<and> (includeOpt = Some False
      \<and> chatCompletion sv (chatModel cfg)
          [(js ''system'', (case systemPromptOpt of None \<Rightarrow> defaultSystemPrompt | Some p \<Rightarrow> p)),
           (js ''user'', message)] = Some content
      \<longrightarrow> chat cfg sv w uid message systemPromptOpt includeOpt maxOpt
            = (Inr \<lparr>response = content, memoriesUsed = 0\<rparr>, w))
   \<and> (chat cfg sv w uid message systemPromptOpt includeOpt maxOpt = (Inr r, w') \<longrightarrow>
        memoriesUsed r
          = (if includeOpt = Some False then 0 else (case maxOpt of None \<Rightarrow> 5 | Some n \<Rightarrow> n)))"
proof (intro conjI impI)
  let ?sp = "case systemPromptOpt of None \<Rightarrow> defaultSystemPrompt | Some p \<Rightarrow> p"
  let ?n = "case maxOpt of None \<Rightarrow> 5 | Some n \<Rightarrow> n"
  {
    assume a: "includeOpt \<noteq> Some False
      \<and> searchMemories cfg sv w uid message (Some ?n) None = (Inr memories, w1)
      \<and> memories \<noteq> []
      \<and> chatCompletion sv (chatModel cfg)
          [(js ''system'', ?sp @ contextBlock sv memories), (js ''user'', message)] = Some content"
    then have inc: "(case includeOpt of None \<Rightarrow> True | Some b \<Rightarrow> b) = True"
      by (cases includeOpt) auto
    have "chatContext cfg sv w uid message ?sp True ?n = (Inr (?sp @ contextBlock sv memories), w1)"
      using a chatContext_enabled[of cfg sv w uid message ?n memories w1 ?sp] by simp
    from chat_completes[of cfg sv w uid message systemPromptOpt includeOpt maxOpt, unfolded inc, OF this] a
    show "chat cfg sv w uid message systemPromptOpt includeOpt maxOpt
            = (Inr \<lparr>response = content, memoriesUsed = ?n\<rparr>, w1)"
      by simp
  }
  {
    assume a: "includeOpt = Some False
      \<and> chatCompletion sv (chatModel cfg) [(js ''system'', ?sp), (js ''user'', message)] = Some content"
    then have inc: "(case includeOpt of None \<Rightarrow> True | Some b \<Rightarrow> b) = False"
      by simp
    from chat_completes[of cfg sv w uid message systemPromptOpt includeOpt maxOpt, unfolded inc,
        OF chatContext_disabled] a
    show "chat cfg sv w uid message systemPromptOpt includeOpt maxOpt
            = (Inr \<lparr>response = content, memoriesUsed = 0\<rparr>, w)"
      by simp
  }
  {
    assume "chat cfg sv w uid message systemPromptOpt includeOpt maxOpt = (Inr r, w')"
    from chat_returns[OF this]
    show "memoriesUsed r = (if includeOpt = Some False then 0 else ?n)"
      by (cases includeOpt) auto
  }
qed

theorem chat_memoriesUsed_witness:
  "fst (searchMemories demoConfig (demoServices 1) demoWorld (js ''alice'') (js ''tea'') (Some 5) None)
     = Inr [demoResult 2 (9 / 10) ''likes tea'', demoResult 0 (7 / 10) ''likes coffee'']
   \<and> chat demoConfig (demoServices 1) demoWorld (js ''alice'') (js ''tea'') None None None
       = (Inr \<lparr>response = js ''ok'', memoriesUsed = 5\<rparr>, demoWorld\<lparr>embeddingCalls := 1\<rparr>)
   \<and> chat demoConfig (demoServices 1) demoWorld (js ''alice'') (js ''tea'') None (Some False) None
       = (Inr \<lparr>response = js ''ok'', memoriesUsed = 0\<rparr>, demoWorld)"
proof -
  have c: "chatCompletion (demoServices 1) m msgs = Some (js ''ok'')" for m msgs
    by (simp add: demoServices_def)
  have s: "searchMemories demoConfig (demoServices 1) demoWorld (js ''alice'') (js ''tea'')
             (Some (case None of None \<Rightarrow> 5 | Some n \<Rightarrow> n)) None
           = (Inr [demoResult 2 (9 / 10) ''likes tea'', demoResult 0 (7 / 10) ''likes coffee''],
              demoWorld\<lparr>embeddingCalls := 1\<rparr>)"
    using demo_search_five by simp
  show ?thesis
    using s c
      chat_memoriesUsed[of None demoConfig "demoServices 1" demoWorld "js ''alice''" "js ''tea''"
        None "[demoResult 2 (9 / 10) ''likes tea'', demoResult 0 (7 / 10) ''likes coffee'']"
        "demoWorld\<lparr>embeddingCalls := 1\<rparr>" None "js ''ok''"]
      chat_memoriesUsed[of "Some False" demoConfig "demoServices 1" demoWorld "js ''alice''"
        "js ''tea''" None "[]" demoWorld None "js ''ok''"]
    by simp
qed

text \<open>
  C10. With the memory context enabled and a search that finds nothing, the system
  prompt goes to the chat service unchanged, and \<open>chat\<close> still returns
  \<open>maxContextMemories\<close> (5 when none is given) as \<open>memoriesUsed\<close>, not 0.
\<close>

theorem chat_memoriesUsed_nothing_found:
  assumes "includeOpt \<noteq> Some False"
    and "searchMemories cfg sv w uid message (Some (case maxOpt of None \<Rightarrow> 5 | Some n \<Rightarrow> n)) None
           = (Inr [], w1)"
    and "chatCompletion sv (chatModel cfg)
           [(js ''system'', (case systemPromptOpt of None \<Rightarrow> defaultSystemPrompt | Some p \<Rightarrow> p)),
            (js ''user'', message)] = Some content"
  shows "chat cfg sv w uid message systemPromptOpt includeOpt maxOpt
           = (Inr \<lparr>response = content,
                   memoriesUsed = (case maxOpt of None \<Rightarrow> 5 | Some n \<Rightarrow> n)\<rparr>, w1)"
proof -
  let ?sp = "case systemPromptOpt of None \<Rightarrow> defaultSystemPrompt | Some p \<Rightarrow> p"
  let ?n = "case maxOpt of None \<Rightarrow> 5 | Some n \<Rightarrow> n"
  from assms(1) have inc: "(case includeOpt of None \<Rightarrow> True | Some b \<Rightarrow> b) = True"
    by (cases includeOpt) auto
  have "chatContext cfg sv w uid message ?sp True ?n = (Inr ?sp, w1)"
    using chatContext_enabled[OF assms(2), of ?sp] by simp
  from chat_completes[of cfg sv w uid message systemPromptOpt includeOpt maxOpt, unfolded inc,
      OF this assms(3)]
  show ?thesis by simp
qed


theorem chat_memoriesUsed_nothing_found_witness:
  "fst (searchMemories demoConfig (demoServices 1) demoWorld (js ''carol'') (js ''tea'') (Some 5) None)
     = Inr []
   \<and> chat demoConfig (demoServices 1) demoWorld (js ''carol'') (js ''tea'') None None None
       = (Inr \<lparr>response = js ''ok'', memoriesUsed = 5\<rparr>, demoWorld\<lparr>embeddingCalls := 1\<rparr>)"
proof -
  have c: "chatCompletion (demoServices 1) m msgs = Some (js ''ok'')" for m msgs
    by (simp add: demoServices_def)
  have s: "searchMemories demoConfig (demoServices 1) demoWorld (js ''carol'') (js ''tea'')
             (Some (case None of None \<Rightarrow> 5 | Some n \<Rightarrow> n)) None
           = (Inr [], demoWorld\<lparr>embeddingCalls := 1\<rparr>)"
    using demo_search_none by simp
  have i: "(None :: bool option) \<noteq> Some False"
    by simp
  from chat_memoriesUsed_nothing_found[OF i s c] s show ?thesis
    by simp
qed

end
